theory Spec2Isabelle
  imports Complex_Main "HOL-Library.List_Lexorder" "HOL-Library.Char_ord"
    "HOL-Library.Product_Lexorder"
begin

section \<open>Constants of refactoring\_code.py\<close>

definition API_BASE_URL :: string where
  "API_BASE_URL = ''https://wikimedia.org/api/rest_v1/metrics''"

definition TOP_ENDPOINT :: string where
  "TOP_ENDPOINT = ''pageviews/top''"

definition DEFAULT_PROJECT :: string where
  "DEFAULT_PROJECT = ''en.wikipedia''"

definition DEFAULT_ACCESS :: string where
  "DEFAULT_ACCESS = ''all-access''"

definition MAX_RETRIES :: nat where
  "MAX_RETRIES = 3"

definition TOP_ARTICLES :: nat where
  "TOP_ARTICLES = 20"

section \<open>Data\<close>

text \<open>
  A row of a data frame with the columns \<open>article\<close>, \<open>views\<close> and \<open>date\<close>. The
  collector's frame holds integer views and the date as the string it formats; after
  reindexing the views are floats that may be NaN (\<open>None\<close>) and the dates are
  timestamps at midnight, modelled as day numbers. The column \<open>rank\<close> of the API's
  records is carried along by pandas and read nowhere; it is left out.
\<close>

record ('d, 'v) row =
  article :: string
  views :: 'v
  date :: 'd

type_synonym raw_row = "(string, int) row"
type_synonym cell = "(int, int option) row"

text \<open>
  The JSON body the code reads: \<open>{"items": [{"articles": [{"article": .., "views": ..}, ..]}]}\<close>.
  The key \<open>items\<close> may be absent (the code tests for it); every item carries its
  \<open>articles\<close> list of (article, views) records. Bodies of any other shape make the
  Python raise and are outside this type.
\<close>

datatype item = Item (articles: "(string \<times> int) list")

datatype payload = Payload (items: "item list option")

text \<open>
  What one \<open>requests.get\<close> call does: it raises a \<open>RequestException\<close> (connection
  error, timeout after \<open>REQ_TIMEOUT\<close>), or it returns a response with a status code and
  a body. The transport is a function of the URL and of the attempt index.
\<close>

datatype outcome = Request_exception | Response nat payload

datatype event = Get string | Sleep nat

type_synonym transport = "string \<Rightarrow> nat \<Rightarrow> outcome"

datatype error =
    Start_after_end
  | Start_in_future
  | No_data
  | To_datetime_error
  | Date_range_NaT
  | Duplicate_index
  | Nan_to_integer

section \<open>API client: get\_top\_wiki\_articles\<close>

text \<open>\<open>"/".join(xs)\<close>\<close>

fun join_slash :: "string list \<Rightarrow> string" where
  "join_slash [] = []"
| "join_slash [x] = x"
| "join_slash (x # y # ys) = x @ ''/'' @ join_slash (y # ys)"

definition raise_for_status :: "nat \<Rightarrow> bool" where
  "raise_for_status st \<longleftrightarrow> 400 \<le> st \<and> st < 600"

definition emit :: "event list \<Rightarrow> 'a \<times> event list \<Rightarrow> 'a \<times> event list" where
  "emit evs r = (fst r, evs @ snd r)"

text \<open>
  The body of \<open>for retr in range(MAX_RETRIES)\<close>, over the list of the remaining attempt
  indices. A 429 sleeps \<open>2 ** retr + 1\<close> and continues; \<open>raise_for_status\<close> raises
  for a status in 400..599, which the \<open>except\<close> clause handles as it does an exception
  of \<open>requests.get\<close>: it sleeps 1 unless this was the last attempt. Falling out of
  the loop returns \<open>None\<close>.
\<close>

fun attempts :: "transport \<Rightarrow> string \<Rightarrow> nat list \<Rightarrow> payload option \<times> event list" where
  "attempts http url [] = (None, [])"
| "attempts http url (retr # rest) =
     (case http url retr of
        Response st body \<Rightarrow>
          if st = 429 then
            emit [Get url, Sleep (2 ^ retr + 1)] (attempts http url rest)
          else if raise_for_status st then
            emit (Get url # (if retr < MAX_RETRIES - 1 then [Sleep 1] else []))
              (attempts http url rest)
          else (Some body, [Get url])
      | Request_exception \<Rightarrow>
          emit (Get url # (if retr < MAX_RETRIES - 1 then [Sleep 1] else []))
            (attempts http url rest))"

declare attempts.simps [simp del]

definition get_top_wiki_articles ::
  "transport \<Rightarrow> string \<Rightarrow> string \<Rightarrow> string \<Rightarrow> string \<Rightarrow> string
    \<Rightarrow> payload option \<times> event list" where
  "get_top_wiki_articles http project year month day access =
     (let top_args = join_slash [project, access, year, month, day];
          url = join_slash [API_BASE_URL, TOP_ENDPOINT, top_args]
      in attempts http url [0..<MAX_RETRIES])"

section \<open>Dates\<close>

text \<open>
  A naive \<open>datetime\<close> is a day number (days since 1970-01-01 in the proleptic Gregorian
  calendar) and the microseconds since midnight, ordered lexicographically as Python
  orders datetimes. \<open>strptime(s, "%Y%m%d")\<close> yields midnight of its day;
  \<open>timedelta(days=1)\<close> moves to the next day number. The fields \<open>year\<close>,
  \<open>month\<close> and \<open>day\<close> (here \<open>dt_year\<close>, \<open>dt_month\<close>, \<open>dt_day\<close>) are
  computed from the day number by the usual civil calendar arithmetic. Python's bound on
  the year (1..9999) is not modelled.
\<close>

type_synonym datetime = "int \<times> nat"

definition civil_from_days :: "int \<Rightarrow> int \<times> int \<times> int" where
  "civil_from_days z0 =
     (let z = z0 + 719468;
          era = z div 146097;
          doe = z mod 146097;
          yoe = (doe - doe div 1460 + doe div 36524 - doe div 146096) div 365;
          doy = doe - (365 * yoe + yoe div 4 - yoe div 100);
          mp = (5 * doy + 2) div 153;
          d = doy - (153 * mp + 2) div 5 + 1;
          m = (if mp < 10 then mp + 3 else mp - 9);
          y = yoe + era * 400 + (if m \<le> 2 then 1 else 0)
      in (y, m, d))"

definition days_from_civil :: "int \<Rightarrow> int \<Rightarrow> int \<Rightarrow> int" where
  "days_from_civil y m d =
     (let y' = (if m \<le> 2 then y - 1 else y);
          era = y' div 400;
          yoe = y' mod 400;
          doy = (153 * (if m > 2 then m - 3 else m + 9) + 2) div 5 + d - 1;
          doe = yoe * 365 + yoe div 4 - yoe div 100 + doy
      in era * 146097 + doe - 719468)"

text \<open>\<open>dt.datetime(y, m, d)\<close>, the value \<open>strptime\<close> returns for the day.\<close>

definition datetime_of :: "int \<Rightarrow> int \<Rightarrow> int \<Rightarrow> datetime" where
  "datetime_of y m d = (days_from_civil y m d, 0)"

definition dt_year :: "datetime \<Rightarrow> int" where
  "dt_year t = fst (civil_from_days (fst t))"

definition dt_month :: "datetime \<Rightarrow> int" where
  "dt_month t = fst (snd (civil_from_days (fst t)))"

definition dt_day :: "datetime \<Rightarrow> int" where
  "dt_day t = snd (snd (civil_from_days (fst t)))"

text \<open>\<open>current_date + dt.timedelta(days=1)\<close>\<close>

definition add_day :: "datetime \<Rightarrow> datetime" where
  "add_day t = (fst t + 1, snd t)"

text \<open>\<open>str(n)\<close> of an integer: its decimal digits, with a sign when negative.\<close>

fun str_nat :: "nat \<Rightarrow> string" where
  "str_nat n = (if n < 10 then [''0123456789'' ! n]
                else str_nat (n div 10) @ [''0123456789'' ! (n mod 10)])"

declare str_nat.simps [simp del]

definition str_int :: "int \<Rightarrow> string" where
  "str_int i = (if i < 0 then ''-'' @ str_nat (nat (- i)) else str_nat (nat i))"

section \<open>validate\_dates\<close>

text \<open>The current time \<open>dt.datetime.now()\<close> is a parameter.\<close>

definition validate_dates :: "datetime \<Rightarrow> datetime \<Rightarrow> datetime \<Rightarrow> error + unit" where
  "validate_dates start_date end_date now =
     (if start_date > end_date then Inl Start_after_end
      else if start_date > now then Inl Start_in_future
      else Inr ())"

section \<open>collect\_wiki\_data\<close>

text \<open>
  The rows one day adds to the frame: when \<open>data and "items" in data and
  len(data["items"]) > 0\<close> holds, the articles of the first item, each tagged with the
  day's date string; \<open>None\<close> in the \<open>else\<close> branch, which only logs a warning.
\<close>

definition day_frame :: "payload option \<Rightarrow> string \<Rightarrow> raw_row list option" where
  "day_frame data date_str =
     (case data of
        None \<Rightarrow> None
      | Some body \<Rightarrow>
          (case items body of
             None \<Rightarrow> None
           | Some [] \<Rightarrow> None
           | Some (it # _) \<Rightarrow>
               Some (map (\<lambda>(a, v). \<lparr>article = a, views = v, date = date_str\<rparr>) (articles it))))"

text \<open>
  The \<open>while current_date <= end_date\<close> loop: the frame built so far is passed along,
  the events of the API client are collected in order.
\<close>

function collect_loop ::
  "transport \<Rightarrow> datetime \<Rightarrow> datetime \<Rightarrow> raw_row list \<Rightarrow> raw_row list \<times> event list" where
  "collect_loop http current_date end_date df =
     (if current_date \<le> end_date then
        (let year_s = str_int (dt_year current_date);
             month_s = str_int (dt_month current_date);
             day_s = str_int (dt_day current_date);
             current_date' = add_day current_date;
             r = get_top_wiki_articles http DEFAULT_PROJECT year_s month_s day_s DEFAULT_ACCESS;
             df' = (case day_frame (fst r) (year_s @ month_s @ day_s) of
                      Some articles_data \<Rightarrow> df @ articles_data
                    | None \<Rightarrow> df)
         in emit (snd r) (collect_loop http current_date' end_date df'))
      else (df, []))"
  by pat_completeness auto
termination
  by (relation "measure (\<lambda>(http, c, e, df). nat (fst e - fst c + 1))")
    (auto simp: add_day_def less_eq_prod_def)

declare collect_loop.simps [simp del]

definition collect_wiki_data ::
  "transport \<Rightarrow> datetime \<Rightarrow> datetime \<Rightarrow> (error + raw_row list) \<times> event list" where
  "collect_wiki_data http start_date end_date =
     (let r = collect_loop http start_date end_date []
      in (if fst r = [] then Inl No_data else Inr (fst r), snd r))"

section \<open>process\_wiki\_data\<close>

text \<open>\<open>Series.unique()\<close>: the distinct values in the order of their first appearance.\<close>

fun unique :: "'a list \<Rightarrow> 'a list" where
  "unique [] = []"
| "unique (x # xs) = x # unique (filter (\<lambda>y. y \<noteq> x) xs)"

text \<open>
  \<open>pd.to_datetime(df["date"])\<close>: the parser of pandas is a parameter, a function from
  the date string to the day number of the timestamp it yields, \<open>None\<close> where it
  raises. The integer views of the collector's frame are the non-missing views of the
  resulting frame.
\<close>

fun to_datetime_column :: "(string \<Rightarrow> int option) \<Rightarrow> raw_row list \<Rightarrow> cell list option" where
  "to_datetime_column to_datetime [] = Some []"
| "to_datetime_column to_datetime (r # rs) =
     (case to_datetime (date r) of
        None \<Rightarrow> None
      | Some d \<Rightarrow>
          (case to_datetime_column to_datetime rs of
             None \<Rightarrow> None
           | Some cs \<Rightarrow> Some (\<lparr>article = article r, views = Some (views r), date = d\<rparr> # cs)))"

text \<open>\<open>pd.date_range(start=lo, end=hi)\<close>: every day from \<open>lo\<close> to \<open>hi\<close>, both included.\<close>

definition date_range :: "int \<Rightarrow> int \<Rightarrow> int list" where
  "date_range lo hi = [lo..hi]"

text \<open>
  \<open>df.set_index(["article", "date"]).reindex(idx).reset_index()\<close> for
  \<open>idx = MultiIndex.from_product([arts, dates])\<close>: one row per pair, article by article,
  with the views of the frame's row of that index and NaN where the frame has none.
\<close>

definition views_at :: "cell list \<Rightarrow> string \<Rightarrow> int \<Rightarrow> int option" where
  "views_at df a d =
     (case find (\<lambda>r. article r = a \<and> date r = d) df of None \<Rightarrow> None | Some r \<Rightarrow> views r)"

definition reindex :: "cell list \<Rightarrow> string list \<Rightarrow> int list \<Rightarrow> cell list" where
  "reindex df arts dates =
     concat (map (\<lambda>a. map (\<lambda>d. \<lparr>article = a, views = views_at df a d, date = d\<rparr>) dates) arts)"

text \<open>
  \<open>df.groupby("article")["views"].transform(lambda x: x.ffill())\<close>: in the order of
  the rows, a missing value takes the last non-missing value seen so far in a row of the
  same article; \<open>seen\<close> holds that value per article.
\<close>

fun ffill :: "(string \<Rightarrow> int option) \<Rightarrow> cell list \<Rightarrow> cell list" where
  "ffill seen [] = []"
| "ffill seen (r # rs) =
     (case views r of
        Some v \<Rightarrow> r # ffill (seen(article r := Some v)) rs
      | None \<Rightarrow> r\<lparr>views := seen (article r)\<rparr> # ffill seen rs)"

text \<open>
  \<open>df.groupby("article")["views"].last()\<close>: per article, in the sorted order of the
  group keys, the last non-missing value of the group (NaN when it has none).
\<close>

definition group_last :: "cell list \<Rightarrow> string \<Rightarrow> int option" where
  "group_last df a =
     (let vs = List.map_filter views (filter (\<lambda>r. article r = a) df)
      in if vs = [] then None else Some (last vs))"

definition last_values :: "cell list \<Rightarrow> (string \<times> int option) list" where
  "last_values df = map (\<lambda>a. (a, group_last df a)) (sort (unique (map article df)))"

text \<open>
  \<open>Series.nlargest(n)\<close> (\<open>keep="first"\<close>): the missing values are dropped, the
  first \<open>n\<close> entries in descending order of the values are returned, equal values in
  the order of the series.
\<close>

definition nlargest :: "nat \<Rightarrow> (string \<times> int option) list \<Rightarrow> (string \<times> int) list" where
  "nlargest n s =
     take n (sort_key (\<lambda>p. - snd p) (List.map_filter (\<lambda>p. map_option (Pair (fst p)) (snd p)) s))"

text \<open>Lines 121 to 136, on the frame with its dates parsed.\<close>

definition dense_ffill :: "cell list \<Rightarrow> cell list" where
  "dense_ffill df =
     ffill (\<lambda>a. None)
       (reindex df (unique (map article df))
          (date_range (Min (set (map date df))) (Max (set (map date df)))))"

definition top_articles :: "cell list \<Rightarrow> (string \<times> int) list" where
  "top_articles df = nlargest TOP_ARTICLES (last_values (dense_ffill df))"

definition process_cells :: "cell list \<Rightarrow> error + cell list" where
  "process_cells df =
     (if df = [] then Inl Date_range_NaT
      else if \<not> distinct (map (\<lambda>r. (article r, date r)) df) then Inl Duplicate_index
      else Inr (filter (\<lambda>r. article r \<in> set (map fst (top_articles df))) (dense_ffill df)))"

definition process_wiki_data :: "(string \<Rightarrow> int option) \<Rightarrow> raw_row list \<Rightarrow> error + cell list" where
  "process_wiki_data to_datetime df =
     (case to_datetime_column to_datetime df of
        None \<Rightarrow> Inl To_datetime_error
      | Some cells \<Rightarrow> process_cells cells)"

section \<open>calculate\_statistics\<close>

text \<open>
  Floats are modelled by exact rationals with \<open>None\<close> for NaN: an addition with NaN is
  NaN, \<open>np.nanmean\<close> averages the values that are not NaN and is NaN when there is
  none, \<open>int\<close> truncates toward zero and raises on NaN. Rounding of the float
  operations is not modelled.
\<close>

definition nan_add :: "rat option \<Rightarrow> int option \<Rightarrow> rat option" where
  "nan_add s v = (case s of None \<Rightarrow> None
                  | Some x \<Rightarrow> (case v of None \<Rightarrow> None | Some y \<Rightarrow> Some (x + of_int y)))"

definition nanmean :: "rat option list \<Rightarrow> rat option" where
  "nanmean xs =
     (let ys = List.map_filter (\<lambda>x. x) xs
      in if ys = [] then None else Some (sum_list ys / of_nat (length ys)))"

definition py_int :: "rat \<Rightarrow> int" where
  "py_int x = (if x \<ge> 0 then \<lfloor>x\<rfloor> else \<lceil>x\<rceil>)"

text \<open>
  The loop \<open>for i in range(len(df_top_articles))\<close> over the rows, on the two
  dictionaries; every key it reads was initialised to 0 from the unique articles of the
  same frame, so the dictionaries are total functions here.
\<close>

fun sum_count ::
  "cell list \<Rightarrow> (string \<Rightarrow> rat option) \<times> (string \<Rightarrow> nat) \<Rightarrow> (string \<Rightarrow> rat option) \<times> (string \<Rightarrow> nat)" where
  "sum_count [] acc = acc"
| "sum_count (r # rs) acc =
     sum_count rs
       ((fst acc)(article r := nan_add (fst acc (article r)) (views r)),
        (snd acc)(article r := snd acc (article r) + 1))"

text \<open>\<open>Series.max()\<close>: NaN for an empty series.\<close>

fun series_max :: "int list \<Rightarrow> int option" where
  "series_max [] = None"
| "series_max (x # xs) = Some (fold max xs x)"

definition calculate_statistics ::
  "raw_row list \<Rightarrow> cell list \<Rightarrow> error + (int \<times> int option \<times> nat)" where
  "calculate_statistics df df_top_articles =
     (let acc = sum_count df_top_articles (\<lambda>a. Some 0, \<lambda>a. 0);
          mean_views = map (\<lambda>a. map_option (\<lambda>s. s / of_nat (snd acc a)) (fst acc a))
                         (unique (map article df_top_articles))
      in case nanmean mean_views of
           None \<Rightarrow> Inl Nan_to_integer
         | Some m \<Rightarrow>
             Inr (py_int m,
                  series_max (map views df),
                  length (unique (map article df))))"

section \<open>main\<close>

text \<open>
  The \<open>try\<close> block of \<open>main\<close> from the parsed dates to the statistics, with the
  events of the network calls made so far. \<open>create_plot\<close> only renders and is left
  out. \<open>df_original\<close> is the copy taken before \<open>process_wiki_data\<close> changes the
  frame.
\<close>

definition main ::
  "transport \<Rightarrow> (string \<Rightarrow> int option) \<Rightarrow> datetime \<Rightarrow> datetime \<Rightarrow> datetime
    \<Rightarrow> (error + (int \<times> int option \<times> nat)) \<times> event list" where
  "main http to_datetime now start_date end_date =
     (case validate_dates start_date end_date now of
        Inl e \<Rightarrow> (Inl e, [])
      | Inr u \<Rightarrow>
          (case fst (collect_wiki_data http start_date end_date) of
             Inl e \<Rightarrow> (Inl e, snd (collect_wiki_data http start_date end_date))
           | Inr df \<Rightarrow>
               (let df_original = df
                in (case process_wiki_data to_datetime df of
                      Inl e \<Rightarrow> Inl e
                    | Inr df_top_articles \<Rightarrow> calculate_statistics df_original df_top_articles,
                    snd (collect_wiki_data http start_date end_date)))))"

section \<open>Functions of the statements\<close>

subsection \<open>The retry policy\<close>

definition succeeds :: "outcome \<Rightarrow> bool" where
  "succeeds out =
     (case out of Request_exception \<Rightarrow> False
      | Response st body \<Rightarrow> st \<noteq> 429 \<and> \<not> (400 \<le> st \<and> st < 600))"

definition rate_limited :: "outcome \<Rightarrow> bool" where
  "rate_limited out = (case out of Request_exception \<Rightarrow> False | Response st body \<Rightarrow> st = 429)"

definition body_of :: "outcome \<Rightarrow> payload option" where
  "body_of out = (case out of Request_exception \<Rightarrow> None | Response st body \<Rightarrow> Some body)"

text \<open>The wait that follows the unsuccessful attempt \<open>i\<close>.\<close>

definition wait_after :: "outcome \<Rightarrow> nat \<Rightarrow> event list" where
  "wait_after out i =
     (if rate_limited out then [Sleep (2 ^ i + 1)]
      else if i < 2 then [Sleep 1] else [])"

definition is_get :: "event \<Rightarrow> bool" where
  "is_get e = (case e of Get u \<Rightarrow> True | Sleep n \<Rightarrow> False)"

definition request_url :: "string \<Rightarrow> string \<Rightarrow> string \<Rightarrow> string \<Rightarrow> string \<Rightarrow> string" where
  "request_url project year month day access =
     join_slash [API_BASE_URL, TOP_ENDPOINT, join_slash [project, access, year, month, day]]"

text \<open>The number of leading unsuccessful attempts among the indices 0, 1, 2.\<close>

definition failed_attempts :: "transport \<Rightarrow> string \<Rightarrow> nat" where
  "failed_attempts http url = length (takeWhile (\<lambda>i. \<not> succeeds (http url i)) [0, 1, 2])"

text \<open>The events of the unsuccessful attempt \<open>i\<close>, as the loop body emits them.\<close>

definition attempt_events :: "transport \<Rightarrow> string \<Rightarrow> nat \<Rightarrow> event list" where
  "attempt_events http url i =
     Get url # (if rate_limited (http url i) then [Sleep (2 ^ i + 1)]
                else if i < MAX_RETRIES - 1 then [Sleep 1] else [])"

subsection \<open>The collector, day by day\<close>

text \<open>
  The date string, the client call, the request URL and the rows of the loop body for
  the day \<open>t\<close>, and the datetimes the \<open>while\<close> loop visits.
\<close>

definition date_str :: "datetime \<Rightarrow> string" where
  "date_str t = str_int (dt_year t) @ str_int (dt_month t) @ str_int (dt_day t)"

definition fetch_day :: "transport \<Rightarrow> datetime \<Rightarrow> payload option \<times> event list" where
  "fetch_day http t =
     get_top_wiki_articles http DEFAULT_PROJECT
       (str_int (dt_year t)) (str_int (dt_month t)) (str_int (dt_day t)) DEFAULT_ACCESS"

definition day_url :: "datetime \<Rightarrow> string" where
  "day_url t =
     request_url DEFAULT_PROJECT (str_int (dt_year t)) (str_int (dt_month t))
       (str_int (dt_day t)) DEFAULT_ACCESS"

definition day_rows :: "transport \<Rightarrow> datetime \<Rightarrow> raw_row list" where
  "day_rows http t =
     (case day_frame (fst (fetch_day http t)) (date_str t) of
        Some articles_data \<Rightarrow> articles_data
      | None \<Rightarrow> [])"

function days_visited :: "datetime \<Rightarrow> datetime \<Rightarrow> datetime list" where
  "days_visited current_date end_date =
     (if current_date \<le> end_date
      then current_date # days_visited (add_day current_date) end_date else [])"
  by pat_completeness auto
termination
  by (relation "measure (\<lambda>(c, e). nat (fst e - fst c + 1))")
    (auto simp: add_day_def less_eq_prod_def)

declare days_visited.simps [simp del]

subsection \<open>The normalizer\<close>

text \<open>
  \<open>Series.ffill\<close> on one series, with the value carried so far; the last
  non-missing value of a function over a list of dates (the carried value when there is
  none); the nearest prior non-missing observation of an article at a date, looking back
  to \<open>lo\<close>; the state of \<open>ffill\<close> after a list of rows; and the first and the
  last date of a frame.
\<close>

fun ffill_from :: "int option \<Rightarrow> int option list \<Rightarrow> int option list" where
  "ffill_from prev [] = []"
| "ffill_from prev (x # xs) =
     (case x of None \<Rightarrow> prev # ffill_from prev xs | Some v \<Rightarrow> Some v # ffill_from (Some v) xs)"

definition last_obs :: "int option \<Rightarrow> (int \<Rightarrow> int option) \<Rightarrow> int list \<Rightarrow> int option" where
  "last_obs prev f ds = (case filter (\<lambda>d. f d \<noteq> None) (rev ds) of [] \<Rightarrow> prev | d # _ \<Rightarrow> f d)"

definition nearest_prior :: "cell list \<Rightarrow> string \<Rightarrow> int \<Rightarrow> int \<Rightarrow> int option" where
  "nearest_prior df a lo d = last_obs None (views_at df a) [lo..d]"

definition cell_of :: "string \<Rightarrow> int \<times> int option \<Rightarrow> cell" where
  "cell_of a p = \<lparr>article = a, views = snd p, date = fst p\<rparr>"

fun seen_after :: "(string \<Rightarrow> int option) \<Rightarrow> cell list \<Rightarrow> (string \<Rightarrow> int option)" where
  "seen_after s [] = s"
| "seen_after s (r # rs) =
     seen_after (case views r of Some v \<Rightarrow> s(article r := Some v) | None \<Rightarrow> s) rs"

definition grid_lo :: "cell list \<Rightarrow> int" where
  "grid_lo df = Min (set (map date df))"

definition grid_hi :: "cell list \<Rightarrow> int" where
  "grid_hi df = Max (set (map date df))"

text \<open>
  The order of the selected entries: descending values, equal values by ascending
  article name.
\<close>

definition desc_then_key :: "string \<times> int \<Rightarrow> string \<times> int \<Rightarrow> bool" where
  "desc_then_key p q \<longleftrightarrow> snd p > snd q \<or> (snd p = snd q \<and> fst p < fst q)"


subsection \<open>The statistics\<close>




subsection \<open>Example inputs\<close>

text \<open>
  A transport that answers only the request for 16 October 2023 and fails every other
  request, and one that answers only the request for 11 January 2023 and returns the
  status 404 for every other request.
\<close>

definition http_oct16 :: transport where
  "http_oct16 url retr =
     (if url = ''https://wikimedia.org/api/rest_v1/metrics/pageviews/top/en.wikipedia/all-access/2023/10/16''
      then Response 200 (Payload (Some [Item [(''A'', 5)]]))
      else Request_exception)"

definition http_jan11 :: transport where
  "http_jan11 url retr =
     (if url = ''https://wikimedia.org/api/rest_v1/metrics/pageviews/top/en.wikipedia/all-access/2023/1/11''
      then Response 200 (Payload (Some [Item [(''A'', 5)]]))
      else Response 404 (Payload None))"

text \<open>One article observed on days 1 and 3.\<close>

definition frame_single :: "cell list" where
  "frame_single =
     [\<lparr>article = ''A'', views = Some 10, date = 1\<rparr>, \<lparr>article = ''A'', views = Some 30, date = 3\<rparr>]"

text \<open>
  A date parser for the two date strings of the examples, and two raw frames over these
  two days: the second observes the article B on the second day only.
\<close>

definition to_datetime_ex :: "string \<Rightarrow> int option" where
  "to_datetime_ex s =
     (if s = ''20231015'' then Some 19645 else if s = ''20231016'' then Some 19646 else None)"


definition raw_late :: "raw_row list" where
  "raw_late =
     [\<lparr>article = ''A'', views = 100, date = ''20231015''\<rparr>,
      \<lparr>article = ''A'', views = 120, date = ''20231016''\<rparr>,
      \<lparr>article = ''B'', views = 50, date = ''20231016''\<rparr>]"

text \<open>Two articles with equal last values and a third with a larger one.\<close>

definition raw_ties :: "raw_row list" where
  "raw_ties =
     [\<lparr>article = ''B'', views = 100, date = ''20231015''\<rparr>,
      \<lparr>article = ''A'', views = 100, date = ''20231015''\<rparr>,
      \<lparr>article = ''C'', views = 120, date = ''20231016''\<rparr>]"

definition frame_ties :: "cell list" where
  "frame_ties =
     [\<lparr>article = ''B'', views = Some 100, date = 19645\<rparr>,
      \<lparr>article = ''A'', views = Some 100, date = 19645\<rparr>,
      \<lparr>article = ''C'', views = Some 120, date = 19646\<rparr>]"





text \<open>
  Two days of 21 articles: X has the given views, the articles 0 to 19 have 10 to 29
  views; the transport that serves them for 15 and 16 October 2023 (X with 1000 and then
  1 views), the frame the collector builds from it, and its normalized top frame.
\<close>

definition articles_21 :: "int \<Rightarrow> (string \<times> int) list" where
  "articles_21 x = (''X'', x) # map (\<lambda>i. (str_nat i, 10 + int i)) [0..<20]"

definition raw_21 :: "raw_row list" where
  "raw_21 =
     map (\<lambda>p. \<lparr>article = fst p, views = snd p, date = ''20231015''\<rparr>) (articles_21 1000)
     @ map (\<lambda>p. \<lparr>article = fst p, views = snd p, date = ''20231016''\<rparr>) (articles_21 1)"

definition frame_21_top :: "cell list" where
  "frame_21_top =
     concat (map (\<lambda>i. [\<lparr>article = str_nat i, views = Some (10 + int i), date = 19645\<rparr>,
                        \<lparr>article = str_nat i, views = Some (10 + int i), date = 19646\<rparr>])
               [0..<20])"

definition http_21 :: transport where
  "http_21 url retr =
     (if url = ''https://wikimedia.org/api/rest_v1/metrics/pageviews/top/en.wikipedia/all-access/2023/10/15''
      then Response 200 (Payload (Some [Item (articles_21 1000)]))
      else if url = ''https://wikimedia.org/api/rest_v1/metrics/pageviews/top/en.wikipedia/all-access/2023/10/16''
      then Response 200 (Payload (Some [Item (articles_21 1)]))
      else Request_exception)"

section \<open>The calendar\<close>

lemma calendar_examples:
  "civil_from_days 0 = (1970, 1, 1)
   \<and> civil_from_days 19368 = (2023, 1, 11)
   \<and> civil_from_days 19662 = (2023, 11, 1)
   \<and> civil_from_days 19782 = (2024, 2, 29)
   \<and> civil_from_days 19783 = (2024, 3, 1)
   \<and> days_from_civil 2023 1 11 = 19368
   \<and> days_from_civil 2023 10 15 = 19645
   \<and> days_from_civil 2023 10 16 = 19646"
  by code_simp

lemma str_int_examples:
  "str_int 2023 = ''2023'' \<and> str_int 1 = ''1'' \<and> str_int 11 = ''11''"
  by code_simp

section \<open>The API client's retry policy\<close>

lemma succeeds_simps:
  "succeeds Request_exception = False"
  "succeeds (Response st body) = (st \<noteq> 429 \<and> \<not> raise_for_status st)"
  by (simp_all add: succeeds_def raise_for_status_def)

lemma rate_limited_simps:
  "rate_limited Request_exception = False"
  "rate_limited (Response st body) = (st = 429)"
  by (simp_all add: rate_limited_def)

lemma body_of_Response: "body_of (Response st body) = Some body"
  by (simp add: body_of_def)

lemma attempts_fail:
  "\<not> succeeds (http url i) \<Longrightarrow>
     attempts http url (i # is) = emit (attempt_events http url i) (attempts http url is)"
  by (auto simp: attempts.simps succeeds_def rate_limited_def raise_for_status_def
      attempt_events_def split: outcome.splits)

lemma attempts_success:
  "succeeds (http url i) \<Longrightarrow> attempts http url (i # is) = (body_of (http url i), [Get url])"
  by (auto simp: attempts.simps succeeds_def body_of_def raise_for_status_def
      split: outcome.splits)

lemma attempts_closed:
  "attempts http url is =
     (case dropWhile (\<lambda>i. \<not> succeeds (http url i)) is of
        [] \<Rightarrow> None | i # _ \<Rightarrow> body_of (http url i),
      concat (map (attempt_events http url) (takeWhile (\<lambda>i. \<not> succeeds (http url i)) is))
      @ (case dropWhile (\<lambda>i. \<not> succeeds (http url i)) is of [] \<Rightarrow> [] | i # _ \<Rightarrow> [Get url]))"
proof (induction "is")
  case Nil
  show ?case by (simp add: attempts.simps)
next
  case (Cons i "is")
  show ?case
  proof (cases "succeeds (http url i)")
    case True
    then show ?thesis by (simp add: attempts_success)
  next
    case False
    then show ?thesis
      by (simp add: attempts_fail Cons.IH emit_def)
  qed
qed

lemma length_filter_concat_one:
  "(\<And>x. x \<in> set xs \<Longrightarrow> length (filter P (f x)) = 1) \<Longrightarrow>
     length (filter P (concat (map f xs))) = length xs"
  by (induction xs) simp_all

lemma takeWhile_012:
  "takeWhile P [0, 1, 2 :: nat] = [0..<length (takeWhile P [0, 1, 2])]"
  by (simp add: upt_rec)

lemma dropWhile_012:
  "dropWhile P [0, 1, 2 :: nat] =
     (if length (takeWhile P [0, 1, 2]) < 3 then [length (takeWhile P [0, 1, 2])..<3] else [])"
  by (simp add: upt_rec)

lemma attempt_events_wait_after:
  "i < 3 \<Longrightarrow> attempt_events http url i = Get url # wait_after (http url i) i"
  by (auto simp: attempt_events_def wait_after_def MAX_RETRIES_def)

lemma attempts_012:
  fixes http :: transport and url :: string
  defines "k \<equiv> failed_attempts http url"
  shows "attempts http url [0, 1, 2] =
     (if k < 3 then body_of (http url k) else None,
      concat (map (\<lambda>i. Get url # wait_after (http url i) i) [0..<k])
      @ (if k < 3 then [Get url] else []))"
proof -
  let ?P = "\<lambda>i. \<not> succeeds (http url i)"
  have k: "k = length (takeWhile ?P [0, 1, 2])"
    by (simp add: k_def failed_attempts_def)
  have k3: "k \<le> 3"
    unfolding k using length_takeWhile_le[of ?P "[0, 1, 2]"] by simp
  have tw: "takeWhile ?P [0, 1, 2] = [0..<k]"
    unfolding k by (rule takeWhile_012)
  have dw: "dropWhile ?P [0, 1, 2] = (if k < 3 then [k..<3] else [])"
    unfolding k by (rule dropWhile_012)
  have ev: "map (attempt_events http url) [0..<k] =
      map (\<lambda>i. Get url # wait_after (http url i) i) [0..<k]"
    using k3 by (intro map_cong refl attempt_events_wait_after) simp
  show ?thesis
    unfolding attempts_closed[of http url "[0, 1, 2]"] tw dw ev
    by (simp add: upt_rec[of k 3])
qed

lemma failed_attempts_le: "failed_attempts http url \<le> 3"
  unfolding failed_attempts_def
  using length_takeWhile_le[of "\<lambda>i. \<not> succeeds (http url i)" "[0, 1, 2]"] by simp

lemma get_top_wiki_articles_eq:
  "get_top_wiki_articles http project year month day access =
     attempts http (request_url project year month day access) [0, 1, 2]"
proof -
  have "[0..<MAX_RETRIES] = [0, 1, 2]"
    by (simp add: MAX_RETRIES_def upt_rec numeral_2_eq_2)
  then show ?thesis
    by (simp add: get_top_wiki_articles_def request_url_def Let_def)
qed

text \<open>
  C8. Each per-day fetch makes at most 3 requests. Writing \<open>k\<close> for the number of
  leading unsuccessful attempts among the indices 0, 1, 2, the events of the call are, for
  each unsuccessful attempt \<open>i < k\<close>, the request followed by its wait (\<open>2 ^ i + 1\<close>
  after a 429; 1 after an exception or an error status, unless \<open>i\<close> was the last
  attempt), and then the successful request if \<open>k < 3\<close>. The call returns the body of
  the first successful attempt, and \<open>None\<close> (it does not raise) when all three
  attempts were unsuccessful.
\<close>

theorem get_top_wiki_articles_retry_policy:
  "length (filter is_get (snd (get_top_wiki_articles http project year month day access))) \<le> 3
    \<and> snd (get_top_wiki_articles http project year month day access) =
        concat (map (\<lambda>i. Get (request_url project year month day access)
                       # wait_after (http (request_url project year month day access) i) i)
                  [0..<failed_attempts http (request_url project year month day access)])
        @ (if failed_attempts http (request_url project year month day access) < 3
           then [Get (request_url project year month day access)] else [])
    \<and> fst (get_top_wiki_articles http project year month day access) =
        (if failed_attempts http (request_url project year month day access) < 3
         then body_of (http (request_url project year month day access)
                 (failed_attempts http (request_url project year month day access)))
         else None)"
proof -
  define url where "url = request_url project year month day access"
  define k where "k = failed_attempts http url"
  have g: "get_top_wiki_articles http project year month day access =
     (if k < 3 then body_of (http url k) else None,
      concat (map (\<lambda>i. Get url # wait_after (http url i) i) [0..<k])
      @ (if k < 3 then [Get url] else []))"
    unfolding get_top_wiki_articles_eq url_def k_def by (rule attempts_012)
  have "length (filter is_get (concat (map (\<lambda>i. Get url # wait_after (http url i) i) [0..<k])))
      = length [0..<k]"
    by (rule length_filter_concat_one) (simp add: is_get_def wait_after_def)
  moreover have "k \<le> 3"
    unfolding k_def by (rule failed_attempts_le)
  ultimately have "length (filter is_get (snd (get_top_wiki_articles http project year month day access))) \<le> 3"
    unfolding g by (simp add: is_get_def)
  then show ?thesis
    unfolding g unfolding url_def k_def by simp
qed

section \<open>The collector\<close>

lemma collect_loop_closed:
  "collect_loop http c e df =
     (df @ concat (map (day_rows http) (days_visited c e)),
      concat (map (\<lambda>t. snd (fetch_day http t)) (days_visited c e)))"
proof (induction http c e df rule: collect_loop.induct)
  case (1 http c e df)
  show ?case
  proof (cases "c \<le> e")
    case True
    have step: "collect_loop http c e df =
        emit (snd (fetch_day http c))
          (collect_loop http (add_day c) e (df @ day_rows http c))"
      using True
      by (subst collect_loop.simps)
        (simp add: Let_def fetch_day_def day_rows_def date_str_def split: option.splits)
    have df': "(case day_frame (fst (get_top_wiki_articles http DEFAULT_PROJECT
                    (str_int (dt_year c)) (str_int (dt_month c)) (str_int (dt_day c))
                    DEFAULT_ACCESS))
                 (str_int (dt_year c) @ str_int (dt_month c) @ str_int (dt_day c)) of
               None \<Rightarrow> df | Some articles_data \<Rightarrow> df @ articles_data)
        = df @ day_rows http c"
      by (simp add: fetch_day_def day_rows_def date_str_def split: option.splits)
    have ih: "collect_loop http (add_day c) e (df @ day_rows http c) =
        ((df @ day_rows http c) @ concat (map (day_rows http) (days_visited (add_day c) e)),
         concat (map (\<lambda>t. snd (fetch_day http t)) (days_visited (add_day c) e)))"
      using "1.IH"[OF True refl refl refl refl refl refl] unfolding df' .
    show ?thesis
      unfolding step ih using True
      by (simp add: emit_def days_visited.simps[of c e])
  next
    case False
    then show ?thesis
      by (simp add: collect_loop.simps[of http c e df] days_visited.simps[of c e])
  qed
qed

lemma day_frame_None: "day_frame None s = None"
  by (simp add: day_frame_def)

lemma day_rows_no_data: "fst (fetch_day http t) = None \<Longrightarrow> day_rows http t = []"
  by (simp add: day_rows_def day_frame_None)

lemma fetch_day_exhausted:
  "failed_attempts http (day_url t) = 3 \<Longrightarrow> fst (fetch_day http t) = None"
proof -
  assume k: "failed_attempts http (day_url t) = 3"
  have "fetch_day http t = attempts http (day_url t) [0, 1, 2]"
    unfolding fetch_day_def day_url_def by (rule get_top_wiki_articles_eq)
  then show ?thesis
    unfolding attempts_012 using k by simp
qed

text \<open>
  C6. The frame the collector returns is the concatenation, over the days the loop
  visits, of the rows of each day: a day whose fetch exhausts all three attempts has a
  \<open>None\<close> result and no rows, and the loop goes on to the other days. The collector
  raises the data-availability error exactly when every visited day has no rows, that is
  when the accumulated frame is empty.
\<close>

theorem collect_wiki_data_days:
  "fst (collect_wiki_data http start_date end_date) =
     (if concat (map (day_rows http) (days_visited start_date end_date)) = [] then Inl No_data
      else Inr (concat (map (day_rows http) (days_visited start_date end_date))))
   \<and> (fst (collect_wiki_data http start_date end_date) = Inl No_data \<longleftrightarrow>
        (\<forall>t \<in> set (days_visited start_date end_date). day_rows http t = []))
   \<and> (\<forall>t. failed_attempts http (day_url t) = 3 \<longrightarrow>
        fst (fetch_day http t) = None \<and> day_rows http t = [])"
  by (auto simp: collect_wiki_data_def collect_loop_closed Let_def day_rows_no_data
      fetch_day_exhausted)

theorem collect_wiki_data_days_witness:
  "failed_attempts http_oct16 (day_url (datetime_of 2023 10 15)) = 3
   \<and> day_rows http_oct16 (datetime_of 2023 10 15) = []
   \<and> days_visited (datetime_of 2023 10 15) (datetime_of 2023 10 16) =
       [datetime_of 2023 10 15, datetime_of 2023 10 16]
   \<and> fst (collect_wiki_data http_oct16 (datetime_of 2023 10 15) (datetime_of 2023 10 16)) =
       Inr [\<lparr>article = ''A'', views = 5, date = ''20231016''\<rparr>]
   \<and> fst (collect_wiki_data http_oct16 (datetime_of 2023 10 15) (datetime_of 2023 10 15)) =
       Inl No_data"
proof -
  define d15 where "d15 = datetime_of 2023 10 15"
  define d16 where "d16 = datetime_of 2023 10 16"
  have k: "failed_attempts http_oct16 (day_url d15) = 3"
    unfolding d15_def by code_simp
  have v: "days_visited d15 d16 = [d15, d16]"
    unfolding d15_def d16_def by code_simp
  have v1: "days_visited d15 d15 = [d15]"
    unfolding d15_def by code_simp
  have r16: "day_rows http_oct16 d16 = [\<lparr>article = ''A'', views = 5, date = ''20231016''\<rparr>]"
    unfolding d16_def by code_simp
  note T2 = collect_wiki_data_days[of http_oct16 d15 d16]
  note T1 = collect_wiki_data_days[of http_oct16 d15 d15]
  have r15: "day_rows http_oct16 d15 = []"
    using T2[THEN conjunct2, THEN conjunct2, rule_format, OF k] by (rule conjunct2)
  have c2: "fst (collect_wiki_data http_oct16 d15 d16) =
       Inr [\<lparr>article = ''A'', views = 5, date = ''20231016''\<rparr>]"
    unfolding T2[THEN conjunct1] v by (simp add: r15 r16)
  have c1: "fst (collect_wiki_data http_oct16 d15 d15) = Inl No_data"
    unfolding T1[THEN conjunct1] v1 by (simp add: r15)
  show ?thesis
    using k v r15 c1 c2 unfolding d15_def d16_def by (intro conjI)
qed

lemma days_visited_first:
  "s \<le> e \<Longrightarrow> s \<in> set (days_visited s e)"
  by (simp add: days_visited.simps[of s e])

lemma collect_contains_day:
  assumes "t \<in> set (days_visited s e)" "r \<in> set (day_rows http t)"
  shows "\<exists>df. fst (collect_wiki_data http s e) = Inr df \<and> r \<in> set df"
proof -
  have "r \<in> set (concat (map (day_rows http) (days_visited s e)))"
    using assms by auto
  moreover from this have "concat (map (day_rows http) (days_visited s e)) \<noteq> []"
    by (metis empty_iff empty_set)
  ultimately show ?thesis
    by (simp add: collect_wiki_data_def collect_loop_closed Let_def)
qed

lemma days_visited_range:
  "t \<in> set (days_visited s e) \<Longrightarrow> s \<le> t \<and> t \<le> e"
proof (induction s e rule: days_visited.induct)
  case (1 c e)
  show ?case
  proof (cases "c \<le> e")
    case True
    have "c \<le> add_day c"
      by (simp add: add_day_def less_eq_prod_def)
    with 1 True show ?thesis
      by (auto simp: days_visited.simps[of c e] intro: order_trans)
  next
    case False
    with 1 show ?thesis by (simp add: days_visited.simps[of c e])
  qed
qed

lemma day_rows_date:
  "r \<in> set (day_rows http t) \<Longrightarrow> date r = date_str t \<and> fst (fetch_day http t) \<noteq> None"
  by (auto simp: day_rows_def day_frame_def split: option.splits list.splits)

lemma collect_wiki_data_rows_from_days:
  assumes "fst (collect_wiki_data http s e) = Inr df" "r \<in> set df"
  shows "\<exists>t. s \<le> t \<and> t \<le> e \<and> fst (fetch_day http t) \<noteq> None \<and> date r = date_str t"
proof -
  from assms have "r \<in> set (concat (map (day_rows http) (days_visited s e)))"
    by (auto simp: collect_wiki_data_def collect_loop_closed Let_def split: if_splits)
  then obtain t where "t \<in> set (days_visited s e)" "r \<in> set (day_rows http t)"
    by auto
  then show ?thesis
    using days_visited_range day_rows_date by blast
qed

text \<open>
  C5. Every row of the collected frame comes from a visited day within the range for
  which the client returned data (lemma \<open>collect_wiki_data_rows_from_days\<close>), but the
  date it carries is the string \<open>f"{year}{month}{day}"\<close> with no zero padding, which
  does not determine the day. With data for 11 January 2023 only, the frame collected
  from 11 January to 1 November 2023 holds a row dated \<open>2023111\<close>, the very string of
  1 November 2023, a day of the range for which the client returned \<open>None\<close>; collected
  for the single day 11 January 2023, the only row carries that same string.
\<close>

theorem collect_wiki_data_date_string_clash:
  "fst (fetch_day http_jan11 (datetime_of 2023 11 1)) = None
   \<and> date_str (datetime_of 2023 11 1) = ''2023111''
   \<and> datetime_of 2023 1 11 \<le> datetime_of 2023 11 1
   \<and> (\<exists>df. fst (collect_wiki_data http_jan11 (datetime_of 2023 1 11) (datetime_of 2023 11 1)) = Inr df
         \<and> \<lparr>article = ''A'', views = 5, date = ''2023111''\<rparr> \<in> set df)
   \<and> fst (collect_wiki_data http_jan11 (datetime_of 2023 1 11) (datetime_of 2023 1 11)) =
        Inr [\<lparr>article = ''A'', views = 5, date = ''2023111''\<rparr>]"
proof -
  define jan11 where "jan11 = datetime_of 2023 1 11"
  define nov1 where "nov1 = datetime_of 2023 11 1"
  have f: "fst (fetch_day http_jan11 nov1) = None"
    unfolding nov1_def by code_simp
  have l: "date_str nov1 = ''2023111''"
    unfolding nov1_def by code_simp
  have le: "jan11 \<le> nov1"
    unfolding jan11_def nov1_def by code_simp
  have r: "day_rows http_jan11 jan11 = [\<lparr>article = ''A'', views = 5, date = ''2023111''\<rparr>]"
    unfolding jan11_def by code_simp
  have v: "days_visited jan11 jan11 = [jan11]"
    unfolding jan11_def by code_simp
  have ex: "\<exists>df. fst (collect_wiki_data http_jan11 jan11 nov1) = Inr df
         \<and> \<lparr>article = ''A'', views = 5, date = ''2023111''\<rparr> \<in> set df"
    by (rule collect_contains_day[OF days_visited_first[OF le]]) (simp add: r)
  have one: "fst (collect_wiki_data http_jan11 jan11 jan11) =
        Inr [\<lparr>article = ''A'', views = 5, date = ''2023111''\<rparr>]"
    by (simp add: collect_wiki_data_def collect_loop_closed Let_def v r)
  show ?thesis
    using f l le ex one unfolding jan11_def nov1_def by (intro conjI)
qed

section \<open>The run\<close>

text \<open>
  C7. When the start date is after the end date, or after the current time, the run ends
  with the validation error of \<open>validate_dates\<close> and its list of network events is
  empty: no request was made.
\<close>

theorem main_validation:
  assumes "start_date > end_date \<or> start_date > now"
  shows "main http to_datetime now start_date end_date =
     (Inl (if start_date > end_date then Start_after_end else Start_in_future), [])"
  using assms by (auto simp: main_def validate_dates_def)

theorem main_validation_witness:
  "datetime_of 2023 10 16 > datetime_of 2023 10 15
   \<and> main http_oct16 (\<lambda>s. None) (datetime_of 2023 10 20) (datetime_of 2023 10 16)
        (datetime_of 2023 10 15) = (Inl Start_after_end, [])
   \<and> datetime_of 2023 10 16 > (days_from_civil 2023 10 15, 86399999999)
   \<and> main http_oct16 (\<lambda>s. None) (days_from_civil 2023 10 15, 86399999999)
        (datetime_of 2023 10 16) (datetime_of 2023 10 16) = (Inl Start_in_future, [])"
proof -
  define d15 where "d15 = datetime_of 2023 10 15"
  define d16 where "d16 = datetime_of 2023 10 16"
  define late15 :: datetime where "late15 = (days_from_civil 2023 10 15, 86399999999)"
  have a: "d16 > d15"
    unfolding d15_def d16_def by code_simp
  have b: "d16 > late15"
    unfolding late15_def d16_def
    by (simp add: datetime_of_def days_from_civil_def less_prod_def)
  have m1: "main http_oct16 (\<lambda>s. None) (datetime_of 2023 10 20) d16 d15 = (Inl Start_after_end, [])"
    using main_validation[of d15 d16 "datetime_of 2023 10 20" http_oct16 "\<lambda>s. None"] a
    by simp
  have m2: "main http_oct16 (\<lambda>s. None) late15 d16 d16 = (Inl Start_in_future, [])"
    using main_validation[of d16 d16 late15 http_oct16 "\<lambda>s. None"] b
    by simp
  show ?thesis
    using a m1 b m2 unfolding d15_def d16_def late15_def by (intro conjI)
qed

section \<open>Normalization: the dense forward-filled frame\<close>

lemma set_unique [simp]: "set (unique xs) = set xs"
  by (induction xs rule: unique.induct) auto

lemma distinct_unique [simp]: "distinct (unique xs)"
  by (induction xs rule: unique.induct) auto

lemma unique_distinct: "distinct xs \<Longrightarrow> unique xs = xs"
proof (induction xs)
  case Nil
  show ?case by simp
next
  case (Cons x xs)
  then have "filter (\<lambda>y. y \<noteq> x) xs = xs"
    by (auto simp: filter_id_conv)
  with Cons show ?case by simp
qed

lemma ffill_append:
  "ffill s (xs @ ys) = ffill s xs @ ffill (seen_after s xs) ys"
  by (induction xs arbitrary: s) (auto split: option.splits)

lemma ffill_cong:
  "(\<And>r. r \<in> set rs \<Longrightarrow> s (article r) = s' (article r)) \<Longrightarrow> ffill s rs = ffill s' rs"
proof (induction rs arbitrary: s s')
  case Nil
  show ?case by simp
next
  case (Cons r rs)
  have hd: "s (article r) = s' (article r)"
    using Cons.prems by simp
  show ?case
  proof (cases "views r")
    case None
    have "ffill s rs = ffill s' rs"
      by (rule Cons.IH) (simp add: Cons.prems)
    with None hd show ?thesis by simp
  next
    case (Some v)
    have "ffill (s(article r := Some v)) rs = ffill (s'(article r := Some v)) rs"
      by (rule Cons.IH) (simp add: Cons.prems)
    with Some show ?thesis by simp
  qed
qed

lemma seen_after_other:
  "(\<And>r. r \<in> set xs \<Longrightarrow> article r \<noteq> b) \<Longrightarrow> seen_after s xs b = s b"
  by (induction xs arbitrary: s) (auto split: option.splits)

lemma ffill_block:
  "ffill s (map (\<lambda>d. \<lparr>article = a, views = f d, date = d\<rparr>) ds) =
     map (cell_of a) (zip ds (ffill_from (s a) (map f ds)))"
  by (induction ds arbitrary: s) (auto simp: cell_of_def split: option.splits)

lemma ffill_blocks:
  assumes "distinct arts"
    and "\<And>a r. a \<in> set arts \<Longrightarrow> r \<in> set (blk a) \<Longrightarrow> article r = a"
    and "\<And>a. a \<in> set arts \<Longrightarrow> s a = None"
  shows "ffill s (concat (map blk arts)) = concat (map (\<lambda>a. ffill (\<lambda>a. None) (blk a)) arts)"
  using assms
proof (induction arts arbitrary: s)
  case Nil
  show ?case by simp
next
  case (Cons a arts)
  have here: "ffill s (blk a) = ffill (\<lambda>a. None) (blk a)"
    by (rule ffill_cong) (simp add: Cons.prems(2) Cons.prems(3))
  have rest: "ffill (seen_after s (blk a)) (concat (map blk arts)) =
      concat (map (\<lambda>a. ffill (\<lambda>a. None) (blk a)) arts)"
  proof (rule Cons.IH)
    show "distinct arts" using Cons.prems(1) by simp
    show "\<And>b r. b \<in> set arts \<Longrightarrow> r \<in> set (blk b) \<Longrightarrow> article r = b"
      using Cons.prems(2) by simp
    fix b assume b: "b \<in> set arts"
    then have "b \<noteq> a" using Cons.prems(1) by auto
    then have "seen_after s (blk a) b = s b"
      by (intro seen_after_other) (use Cons.prems(2) in auto)
    then show "seen_after s (blk a) b = None"
      using Cons.prems(3) b by simp
  qed
  show ?case
    by (simp add: ffill_append here rest)
qed

lemma dense_ffill_blocks:
  "dense_ffill df =
     concat (map (\<lambda>a. map (cell_of a)
        (zip [grid_lo df..grid_hi df]
          (ffill_from None (map (views_at df a) [grid_lo df..grid_hi df]))))
       (unique (map article df)))"
proof -
  have "ffill (\<lambda>a. None)
      (concat (map (\<lambda>a. map (\<lambda>d. \<lparr>article = a, views = views_at df a d, date = d\<rparr>)
         [grid_lo df..grid_hi df]) (unique (map article df)))) =
    concat (map (\<lambda>a. ffill (\<lambda>a. None)
      (map (\<lambda>d. \<lparr>article = a, views = views_at df a d, date = d\<rparr>) [grid_lo df..grid_hi df]))
      (unique (map article df)))"
    by (rule ffill_blocks) auto
  then show ?thesis
    by (simp add: dense_ffill_def reindex_def date_range_def grid_lo_def grid_hi_def ffill_block)
qed

lemma last_obs_snoc:
  "last_obs p f (ds @ [d]) = (case f d of Some v \<Rightarrow> Some v | None \<Rightarrow> last_obs p f ds)"
  by (auto simp: last_obs_def split: option.splits)

lemma ffill_from_snoc:
  "ffill_from p (xs @ [x]) =
     ffill_from p xs @ [case x of Some v \<Rightarrow> Some v | None \<Rightarrow> last (p # ffill_from p xs)]"
proof (induction xs arbitrary: p)
  case Nil
  show ?case by (simp split: option.splits)
next
  case (Cons y ys)
  show ?case
  proof (cases y)
    case None
    then show ?thesis by (simp add: Cons.IH split: option.splits)
  next
    case (Some v)
    then show ?thesis by (simp add: Cons.IH split: option.splits)
  qed
qed

lemma length_ffill_from [simp]: "length (ffill_from p xs) = length xs"
  by (induction xs arbitrary: p) (auto split: option.splits)

lemma ffill_from_last_obs:
  "ffill_from p (map f ds) = map (\<lambda>i. last_obs p f (take (Suc i) ds)) [0..<length ds]"
proof (induction ds rule: rev_induct)
  case Nil
  show ?case by simp
next
  case (snoc d ds)
  have last_eq: "last (p # ffill_from p (map f ds)) = last_obs p f ds"
  proof (cases "ds = []")
    case True
    then show ?thesis by (simp add: last_obs_def)
  next
    case False
    then have "last (map (\<lambda>i. last_obs p f (take (Suc i) ds)) [0..<length ds]) =
        last_obs p f (take (Suc (length ds - 1)) ds)"
      by (simp add: last_map)
    with False show ?thesis by (simp add: snoc.IH)
  qed
  have "ffill_from p (map f (ds @ [d])) =
      ffill_from p (map f ds) @ [last_obs p f (ds @ [d])]"
    by (simp add: ffill_from_snoc last_obs_snoc last_eq del: last.simps split: option.splits)
  then show ?case
    by (simp add: snoc.IH)
qed

lemma last_ffill_from:
  "last (p # ffill_from p (map f ds)) = last_obs p f ds"
proof (cases "ds = []")
  case True
  then show ?thesis by (simp add: last_obs_def)
next
  case False
  then have "last (map (\<lambda>i. last_obs p f (take (Suc i) ds)) [0..<length ds]) =
      last_obs p f (take (Suc (length ds - 1)) ds)"
    by (simp add: last_map)
  with False show ?thesis by (simp add: ffill_from_last_obs)
qed

lemma upto_snoc_nat: "[lo..lo + int (Suc n) - 1] = [lo..lo + int n - 1] @ [lo + int n]"
  using upto_rec2[of lo "lo + int n"] by simp

lemma upto_snoc_nat': "[lo..lo + int n] = [lo..lo + int n - 1] @ [lo + int n]"
  using upto_rec2[of lo "lo + int n"] by simp

lemma zip_ffill_from_upto:
  "zip [lo..lo + int n - 1] (ffill_from None (map f [lo..lo + int n - 1])) =
     map (\<lambda>d. (d, last_obs None f [lo..d])) [lo..lo + int n - 1]"
proof (induction n)
  case 0
  show ?case by simp
next
  case (Suc n)
  have len: "length [lo..lo + int n - 1] =
      length (ffill_from None (map f [lo..lo + int n - 1]))"
    by simp
  have lst: "last (None # ffill_from None (map f [lo..lo + int n - 1])) =
      last_obs None f [lo..lo + int n - 1]"
    by (rule last_ffill_from)
  have "ffill_from None (map f [lo..lo + int (Suc n) - 1]) =
      ffill_from None (map f [lo..lo + int n - 1]) @ [last_obs None f [lo..lo + int (Suc n) - 1]]"
    unfolding upto_snoc_nat
    by (simp add: ffill_from_snoc last_obs_snoc lst del: last.simps split: option.splits)
  then have "zip [lo..lo + int (Suc n) - 1] (ffill_from None (map f [lo..lo + int (Suc n) - 1])) =
      zip ([lo..lo + int n - 1] @ [lo + int n])
        (ffill_from None (map f [lo..lo + int n - 1]) @ [last_obs None f [lo..lo + int (Suc n) - 1]])"
    using upto_snoc_nat[of lo n] by simp
  also have "\<dots> = zip [lo..lo + int n - 1] (ffill_from None (map f [lo..lo + int n - 1]))
      @ [(lo + int n, last_obs None f [lo..lo + int (Suc n) - 1])]"
    using len by (simp add: zip_append)
  also have "\<dots> = map (\<lambda>d. (d, last_obs None f [lo..d])) [lo..lo + int (Suc n) - 1]"
    unfolding Suc.IH by (simp add: upto_snoc_nat'[of lo n])
  finally show ?case .
qed

lemma zip_ffill_from_range:
  "zip [lo..hi] (ffill_from None (map f [lo..hi])) =
     map (\<lambda>d. (d, last_obs None f [lo..d])) [lo..hi]"
proof (cases "lo \<le> hi")
  case True
  then have "hi = lo + int (nat (hi - lo + 1)) - 1" by simp
  then show ?thesis
    using zip_ffill_from_upto[of lo "nat (hi - lo + 1)" f] by simp
next
  case False
  then show ?thesis by simp
qed

lemma dense_ffill_nearest_prior:
  "dense_ffill df =
     concat (map (\<lambda>a. map (\<lambda>d. \<lparr>article = a, views = nearest_prior df a (grid_lo df) d, date = d\<rparr>)
        [grid_lo df..grid_hi df]) (unique (map article df)))"
  unfolding dense_ffill_blocks zip_ffill_from_range
  by (simp add: cell_of_def nearest_prior_def comp_def)

lemma last_obs_None_iff:
  "last_obs None f ds = None \<longleftrightarrow> (\<forall>d \<in> set ds. f d = None)"
proof (induction ds rule: rev_induct)
  case Nil
  show ?case by (simp add: last_obs_def)
next
  case (snoc d ds)
  show ?case
    by (cases "f d") (auto simp: last_obs_snoc snoc.IH)
qed

lemma last_obs_Some_upto:
  "last_obs None f [lo..lo + int n - 1] = Some v \<Longrightarrow>
     \<exists>d'. lo \<le> d' \<and> d' \<le> lo + int n - 1 \<and> f d' = Some v
        \<and> (\<forall>d''. d' < d'' \<and> d'' \<le> lo + int n - 1 \<longrightarrow> f d'' = None)"
proof (induction n)
  case 0
  then show ?case by (simp add: last_obs_def)
next
  case (Suc n)
  show ?case
  proof (cases "f (lo + int n)")
    case None
    with Suc.prems have "last_obs None f [lo..lo + int n - 1] = Some v"
      unfolding upto_snoc_nat by (simp add: last_obs_snoc)
    from Suc.IH[OF this] obtain d' where d': "lo \<le> d'" "d' \<le> lo + int n - 1" "f d' = Some v"
      "\<forall>d''. d' < d'' \<and> d'' \<le> lo + int n - 1 \<longrightarrow> f d'' = None"
      by blast
    have "\<forall>d''. d' < d'' \<and> d'' \<le> lo + int (Suc n) - 1 \<longrightarrow> f d'' = None"
    proof (intro allI impI)
      fix d'' assume "d' < d'' \<and> d'' \<le> lo + int (Suc n) - 1"
      then have "d'' \<le> lo + int n - 1 \<or> d'' = lo + int n" by auto
      then show "f d'' = None" using d'(4) None \<open>d' < d'' \<and> d'' \<le> lo + int (Suc n) - 1\<close> by auto
    qed
    with d' show ?thesis
      by (intro exI[of _ d']) auto
  next
    case (Some w)
    with Suc.prems have "w = v"
      unfolding upto_snoc_nat by (simp add: last_obs_snoc)
    with Some show ?thesis
      by (intro exI[of _ "lo + int n"]) auto
  qed
qed

lemma nearest_prior_None_iff:
  "nearest_prior df a lo d = None \<longleftrightarrow> (\<forall>d' \<in> {lo..d}. views_at df a d' = None)"
  by (simp add: nearest_prior_def last_obs_None_iff)

lemma nearest_prior_Some:
  assumes "nearest_prior df a lo d = Some v"
  shows "\<exists>d'. lo \<le> d' \<and> d' \<le> d \<and> views_at df a d' = Some v
        \<and> (\<forall>d''. d' < d'' \<and> d'' \<le> d \<longrightarrow> views_at df a d'' = None)"
proof (cases "lo \<le> d")
  case True
  then have d: "d = lo + int (nat (d - lo + 1)) - 1" by simp
  show ?thesis
    using last_obs_Some_upto[of "views_at df a" lo "nat (d - lo + 1)" v] assms d
    by (simp add: nearest_prior_def)
next
  case False
  with assms show ?thesis by (simp add: nearest_prior_def last_obs_def)
qed

lemma views_at_distinct:
  "distinct (map (\<lambda>r. (article r, date r)) df) \<Longrightarrow> r \<in> set df \<Longrightarrow>
     views_at df (article r) (date r) = views r"
proof (induction df)
  case Nil
  then show ?case by simp
next
  case (Cons x df)
  show ?case
  proof (cases "article x = article r \<and> date x = date r")
    case True
    have "r = x"
    proof (rule ccontr)
      assume "r \<noteq> x"
      with Cons.prems have "r \<in> set df" by simp
      then have "(article x, date x) \<in> set (map (\<lambda>r. (article r, date r)) df)"
        using True by force
      with Cons.prems(1) show False by simp
    qed
    then show ?thesis by (simp add: views_at_def)
  next
    case False
    with Cons.prems have "r \<in> set df" by auto
    with Cons False show ?thesis by (auto simp: views_at_def)
  qed
qed

lemma views_at_Some_in:
  "views_at df a d = Some v \<Longrightarrow> \<exists>r \<in> set df. article r = a \<and> date r = d \<and> views r = Some v"
  by (auto simp: views_at_def find_Some_iff split: option.splits)

lemma views_at_Some_iff:
  assumes "distinct (map (\<lambda>r. (article r, date r)) df)"
  shows "views_at df a d = Some v \<longleftrightarrow>
    (\<exists>r \<in> set df. article r = a \<and> date r = d \<and> views r = Some v)"
  using views_at_Some_in views_at_distinct[OF assms] by metis

lemma process_cells_Inr:
  "process_cells df = Inr out \<longleftrightarrow>
     df \<noteq> [] \<and> distinct (map (\<lambda>r. (article r, date r)) df)
     \<and> out = filter (\<lambda>r. article r \<in> set (map fst (top_articles df))) (dense_ffill df)"
  by (auto simp: process_cells_def)

lemma grid_bounds:
  assumes "r \<in> set df"
  shows "grid_lo df \<le> date r" "date r \<le> grid_hi df"
  using assms by (auto simp: grid_lo_def grid_hi_def)

lemma grid_lo_le_hi: "df \<noteq> [] \<Longrightarrow> grid_lo df \<le> grid_hi df"
proof -
  assume "df \<noteq> []"
  then obtain r where "r \<in> set df" by (cases df) auto
  from grid_bounds[OF this] show ?thesis by simp
qed

text \<open>
  C1. When normalization returns a frame, it is the rows, for the selected articles, of
  the grid of every article (in the order of first appearance) and every date from the
  first to the last date of the input, where the views at (article, date) are the nearest
  prior observation of that article: missing exactly when the article has no non-missing
  observation from the first date up to that date (leading entries stay missing), and
  otherwise the views observed at the latest such date. An observation is the views of the
  input row with that article and date. For the single article observed on days 1 and 3
  with views 10 and 30 the normalized series is 10, 10, 30.
\<close>

theorem process_cells_forward_fill:
  "(process_cells df = Inr out \<longrightarrow>
      out = filter (\<lambda>r. article r \<in> set (map fst (top_articles df)))
        (concat (map (\<lambda>a. map (\<lambda>d. \<lparr>article = a,
                                    views = nearest_prior df a (grid_lo df) d, date = d\<rparr>)
                          [grid_lo df..grid_hi df])
                  (unique (map article df))))
      \<and> (views_at df a d = Some v \<longleftrightarrow>
           (\<exists>r \<in> set df. article r = a \<and> date r = d \<and> views r = Some v)))
   \<and> (nearest_prior df a lo d = None \<longleftrightarrow> (\<forall>d' \<in> {lo..d}. views_at df a d' = None))
   \<and> (nearest_prior df a lo d = Some v \<longrightarrow>
        (\<exists>d'. lo \<le> d' \<and> d' \<le> d \<and> views_at df a d' = Some v
           \<and> (\<forall>d''. d' < d'' \<and> d'' \<le> d \<longrightarrow> views_at df a d'' = None)))
   \<and> process_cells
        [\<lparr>article = ''A'', views = Some 10, date = 1\<rparr>,
         \<lparr>article = ''A'', views = Some 30, date = 3\<rparr>] =
      Inr [\<lparr>article = ''A'', views = Some 10, date = 1\<rparr>,
           \<lparr>article = ''A'', views = Some 10, date = 2\<rparr>,
           \<lparr>article = ''A'', views = Some 30, date = 3\<rparr>]"
proof -
  have ex: "process_cells
        [\<lparr>article = ''A'', views = Some 10, date = 1\<rparr>,
         \<lparr>article = ''A'', views = Some 30, date = 3\<rparr>] =
      Inr [\<lparr>article = ''A'', views = Some 10, date = 1\<rparr>,
           \<lparr>article = ''A'', views = Some 10, date = 2\<rparr>,
           \<lparr>article = ''A'', views = Some 30, date = 3\<rparr>]"
    by code_simp
  have a: "process_cells df = Inr out \<longrightarrow>
      out = filter (\<lambda>r. article r \<in> set (map fst (top_articles df)))
        (concat (map (\<lambda>a. map (\<lambda>d. \<lparr>article = a,
                                    views = nearest_prior df a (grid_lo df) d, date = d\<rparr>)
                          [grid_lo df..grid_hi df])
                  (unique (map article df))))
      \<and> (views_at df a d = Some v \<longleftrightarrow>
           (\<exists>r \<in> set df. article r = a \<and> date r = d \<and> views r = Some v))"
    using views_at_Some_iff[of df a d v]
    by (simp add: process_cells_Inr dense_ffill_nearest_prior)
  show ?thesis
    using a ex nearest_prior_None_iff[of df a lo d] nearest_prior_Some[of df a lo d v]
    by (intro conjI impI) blast+
qed

theorem process_cells_forward_fill_witness:
  "process_cells frame_single =
      Inr [\<lparr>article = ''A'', views = Some 10, date = 1\<rparr>,
           \<lparr>article = ''A'', views = Some 10, date = 2\<rparr>,
           \<lparr>article = ''A'', views = Some 30, date = 3\<rparr>]
   \<and> views_at frame_single ''A'' 2 = None
   \<and> nearest_prior frame_single ''A'' 1 2 = Some 10
   \<and> (\<exists>d'. 1 \<le> d' \<and> d' \<le> 2 \<and> views_at frame_single ''A'' d' = Some 10
         \<and> (\<forall>d''. d' < d'' \<and> d'' \<le> 2 \<longrightarrow> views_at frame_single ''A'' d'' = None))"
proof -
  have p: "process_cells frame_single =
      Inr [\<lparr>article = ''A'', views = Some 10, date = 1\<rparr>,
           \<lparr>article = ''A'', views = Some 10, date = 2\<rparr>,
           \<lparr>article = ''A'', views = Some 30, date = 3\<rparr>]"
    by code_simp
  have v: "views_at frame_single ''A'' 2 = None"
    by code_simp
  have n: "nearest_prior frame_single ''A'' 1 2 = Some 10"
    by code_simp
  note T = process_cells_forward_fill[where df = frame_single and a = "''A''" and lo = 1 and d = 2
      and v = 10]
  have "\<exists>d'. 1 \<le> d' \<and> d' \<le> 2 \<and> views_at frame_single ''A'' d' = Some 10
         \<and> (\<forall>d''. d' < d'' \<and> d'' \<le> 2 \<longrightarrow> views_at frame_single ''A'' d'' = None)"
    using T[THEN conjunct2, THEN conjunct2, THEN conjunct1, rule_format, OF n] .
  with p v n show ?thesis by (intro conjI)
qed

section \<open>Normalization: the last values\<close>

lemma filter_concat_block:
  assumes "distinct arts" "a \<in> set arts"
    and "\<And>b r. b \<in> set arts \<Longrightarrow> r \<in> set (blk b) \<Longrightarrow> article r = b"
  shows "filter (\<lambda>r. article r = a) (concat (map blk arts)) = blk a"
  using assms
proof (induction arts)
  case Nil
  then show ?case by simp
next
  case (Cons b arts)
  show ?case
  proof (cases "b = a")
    case True
    have here: "filter (\<lambda>r. article r = a) (blk a) = blk a"
      using Cons.prems(3)[of a] True by (simp add: filter_id_conv)
    have "a \<notin> set arts" using Cons.prems(1) True by simp
    then have "\<And>r. r \<in> set (concat (map blk arts)) \<Longrightarrow> article r \<noteq> a"
      using Cons.prems(3) by fastforce
    then have "filter (\<lambda>r. article r = a) (concat (map blk arts)) = []"
      by (simp add: filter_empty_conv)
    with here True show ?thesis by simp
  next
    case False
    then have "filter (\<lambda>r. article r = a) (blk b) = []"
      using Cons.prems(3)[of b] by (auto simp: filter_empty_conv)
    moreover have "filter (\<lambda>r. article r = a) (concat (map blk arts)) = blk a"
      using Cons False by auto
    ultimately show ?thesis by simp
  qed
qed

lemma map_filter_append:
  "List.map_filter f (xs @ ys) = List.map_filter f xs @ List.map_filter f ys"
  by (simp add: List.map_filter_def)

lemma map_filter_last_Some:
  assumes "xs \<noteq> []" "f (last xs) = Some v"
  shows "List.map_filter f xs \<noteq> [] \<and> last (List.map_filter f xs) = v"
proof -
  from assms(1) obtain ys where xs: "xs = ys @ [last xs]"
    by (metis append_butlast_last_id)
  have "List.map_filter f xs = List.map_filter f ys @ [v]"
    by (subst xs) (simp add: map_filter_append List.map_filter_def assms(2))
  then show ?thesis by simp
qed

lemma map_filter_all_None:
  "(\<And>x. x \<in> set xs \<Longrightarrow> f x = None) \<Longrightarrow> List.map_filter f xs = []"
  by (induction xs) (auto simp: List.map_filter_def)

lemma nearest_prior_mono_None:
  assumes "nearest_prior df a lo hi = None" "d \<le> hi"
  shows "nearest_prior df a lo d = None"
  using assms by (auto simp: nearest_prior_None_iff)

lemma dense_article_block:
  assumes "a \<in> set (map article df)"
  shows "filter (\<lambda>r. article r = a) (dense_ffill df) =
     map (\<lambda>d. \<lparr>article = a, views = nearest_prior df a (grid_lo df) d, date = d\<rparr>)
       [grid_lo df..grid_hi df]"
  unfolding dense_ffill_nearest_prior
  by (rule filter_concat_block) (use assms in auto)

lemma group_last_dense:
  assumes "df \<noteq> []" "a \<in> set (map article df)"
  shows "group_last (dense_ffill df) a = nearest_prior df a (grid_lo df) (grid_hi df)"
proof -
  let ?blk = "map (\<lambda>d. \<lparr>article = a, views = nearest_prior df a (grid_lo df) d, date = d\<rparr>)
       [grid_lo df..grid_hi df]"
  have le: "grid_lo df \<le> grid_hi df"
    using assms(1) by (rule grid_lo_le_hi)
  then have ne: "?blk \<noteq> []" by simp
  have lst: "views (last ?blk) = nearest_prior df a (grid_lo df) (grid_hi df)"
    using le by (simp add: last_map upto_rec2)
  show ?thesis
  proof (cases "nearest_prior df a (grid_lo df) (grid_hi df)")
    case None
    have "List.map_filter views ?blk = []"
      by (rule map_filter_all_None) (use None in \<open>auto intro: nearest_prior_mono_None\<close>)
    with None show ?thesis
      by (simp add: group_last_def dense_article_block[OF assms(2)])
  next
    case (Some v)
    with lst have "views (last ?blk) = Some v" by simp
    from map_filter_last_Some[of ?blk views v, OF ne this] Some show ?thesis
      by (simp add: group_last_def dense_article_block[OF assms(2)] Let_def)
  qed
qed

lemma set_article_grid:
  "ds \<noteq> [] \<Longrightarrow>
     set (map article (concat (map (\<lambda>a. map (\<lambda>d. \<lparr>article = a, views = g a d, date = d\<rparr>) ds) arts)))
       = set arts"
proof (induction arts)
  case Nil
  show ?case by simp
next
  case (Cons a arts)
  from Cons.prems obtain d ds' where "ds = d # ds'" by (cases ds) auto
  then have "set (map article (map (\<lambda>d. \<lparr>article = a, views = g a d, date = d\<rparr>) ds)) = {a}"
    by auto
  with Cons show ?case by auto
qed

lemma set_article_dense:
  assumes "df \<noteq> []"
  shows "set (map article (dense_ffill df)) = set (map article df)"
proof -
  have "grid_lo df \<le> grid_hi df"
    using assms by (rule grid_lo_le_hi)
  then have "[grid_lo df..grid_hi df] \<noteq> []" by simp
  from set_article_grid[OF this, of "\<lambda>a. nearest_prior df a (grid_lo df)" "unique (map article df)"]
  have "set (map article (dense_ffill df)) = set (unique (map article df))"
    unfolding dense_ffill_nearest_prior .
  then show ?thesis by (simp only: set_unique)
qed

lemma sort_distinct_set:
  "distinct xs \<Longrightarrow> sort xs = sorted_list_of_set (set xs)"
  by (simp add: sorted_list_of_set_sort_remdups distinct_remdups_id)

lemma last_values_dense:
  assumes "df \<noteq> []"
  shows "last_values (dense_ffill df) =
     map (\<lambda>a. (a, nearest_prior df a (grid_lo df) (grid_hi df)))
       (sorted_list_of_set (set (map article df)))"
proof -
  have s: "sort (unique (map article (dense_ffill df))) =
      sorted_list_of_set (set (map article df))"
    using set_article_dense[OF assms] by (simp add: sort_distinct_set)
  show ?thesis
    unfolding last_values_def s
    by (rule map_cong) (use group_last_dense[OF assms] in auto)
qed

lemma nearest_prior_observed:
  assumes "distinct (map (\<lambda>r. (article r, date r)) df)" "r \<in> set df" "views r \<noteq> None"
  shows "nearest_prior df (article r) (grid_lo df) (grid_hi df) \<noteq> None"
proof -
  have "views_at df (article r) (date r) \<noteq> None"
    using views_at_distinct[OF assms(1,2)] assms(3) by simp
  moreover have "date r \<in> {grid_lo df..grid_hi df}"
    using grid_bounds[OF assms(2)] by simp
  ultimately have "\<not> (\<forall>d' \<in> {grid_lo df..grid_hi df}. views_at df (article r) d' = None)"
    by auto
  then show ?thesis
    by (simp only: nearest_prior_None_iff not_False_eq_True)
qed

lemma to_datetime_column_Some:
  "to_datetime_column to_datetime raw = Some df \<Longrightarrow>
     map article df = map article raw \<and> (\<forall>r \<in> set df. views r \<noteq> None)
     \<and> map views df = map (\<lambda>r. Some (views r)) raw"
  by (induction raw arbitrary: df) (auto split: option.splits)

lemma dense_row_cases:
  assumes "r \<in> set (dense_ffill df)"
  shows "article r \<in> set (map article df) \<and> grid_lo df \<le> date r \<and> date r \<le> grid_hi df
     \<and> views r = nearest_prior df (article r) (grid_lo df) (date r)"
  using assms unfolding dense_ffill_nearest_prior by auto

text \<open>
  C10. For a frame of the collector (integer views, so every article has an observation)
  on which normalization returns: in the dense forward-filled frame every row of the last
  date has non-missing views; the series of last values has one entry per article of the
  raw frame and none is missing; and a row with missing views has no observation of its
  article from the first date up to its own date, so the only missing values are leading
  ones.
\<close>

theorem process_wiki_data_last_value_defined:
  assumes "process_wiki_data to_datetime raw = Inr out"
  shows "\<exists>df. to_datetime_column to_datetime raw = Some df \<and> process_cells df = Inr out
     \<and> (\<forall>r \<in> set (dense_ffill df). date r = grid_hi df \<longrightarrow> views r \<noteq> None)
     \<and> set (map fst (last_values (dense_ffill df))) = set (map article raw)
     \<and> (\<forall>p \<in> set (last_values (dense_ffill df)). snd p \<noteq> None)
     \<and> (\<forall>r \<in> set (dense_ffill df). views r = None \<longrightarrow>
          (\<forall>d' \<in> {grid_lo df..date r}. views_at df (article r) d' = None))"
proof -
  from assms obtain df where df: "to_datetime_column to_datetime raw = Some df"
    and p: "process_cells df = Inr out"
    by (auto simp: process_wiki_data_def split: option.splits)
  from p have ne: "df \<noteq> []" and dist: "distinct (map (\<lambda>r. (article r, date r)) df)"
    by (simp_all add: process_cells_Inr)
  from to_datetime_column_Some[OF df]
  have arts: "map article df = map article raw" and obs: "\<forall>r \<in> set df. views r \<noteq> None"
    by simp_all
  have defined: "nearest_prior df a (grid_lo df) (grid_hi df) \<noteq> None"
    if "a \<in> set (map article df)" for a
  proof -
    from that obtain r where r: "r \<in> set df" "article r = a" by auto
    with nearest_prior_observed[OF dist r(1)] obs show ?thesis by auto
  qed
  have c1: "\<forall>r \<in> set (dense_ffill df). date r = grid_hi df \<longrightarrow> views r \<noteq> None"
    using dense_row_cases defined by metis
  have c2: "set (map fst (last_values (dense_ffill df))) = set (map article raw)"
    unfolding last_values_dense[OF ne] arts[symmetric] by (simp add: comp_def)
  have c3: "\<forall>p \<in> set (last_values (dense_ffill df)). snd p \<noteq> None"
    unfolding last_values_dense[OF ne] using defined by auto
  have c4: "\<forall>r \<in> set (dense_ffill df). views r = None \<longrightarrow>
          (\<forall>d' \<in> {grid_lo df..date r}. views_at df (article r) d' = None)"
    using dense_row_cases nearest_prior_None_iff by metis
  from df p c1 c2 c3 c4 show ?thesis by blast
qed

theorem process_wiki_data_last_value_defined_witness:
  "process_wiki_data to_datetime_ex raw_late =
     Inr [\<lparr>article = ''A'', views = Some 100, date = 19645\<rparr>,
          \<lparr>article = ''A'', views = Some 120, date = 19646\<rparr>,
          \<lparr>article = ''B'', views = None, date = 19645\<rparr>,
          \<lparr>article = ''B'', views = Some 50, date = 19646\<rparr>]
   \<and> (\<exists>df. to_datetime_column to_datetime_ex raw_late = Some df
        \<and> (\<forall>r \<in> set (dense_ffill df). date r = grid_hi df \<longrightarrow> views r \<noteq> None)
        \<and> set (map fst (last_values (dense_ffill df))) = set (map article raw_late)
        \<and> (\<forall>p \<in> set (last_values (dense_ffill df)). snd p \<noteq> None))"
proof -
  have e: "process_wiki_data to_datetime_ex raw_late =
     Inr [\<lparr>article = ''A'', views = Some 100, date = 19645\<rparr>,
          \<lparr>article = ''A'', views = Some 120, date = 19646\<rparr>,
          \<lparr>article = ''B'', views = None, date = 19645\<rparr>,
          \<lparr>article = ''B'', views = Some 50, date = 19646\<rparr>]"
    by code_simp
  from process_wiki_data_last_value_defined[OF e] obtain df where
    "to_datetime_column to_datetime_ex raw_late = Some df"
    "\<forall>r \<in> set (dense_ffill df). date r = grid_hi df \<longrightarrow> views r \<noteq> None"
    "set (map fst (last_values (dense_ffill df))) = set (map article raw_late)"
    "\<forall>p \<in> set (last_values (dense_ffill df)). snd p \<noteq> None"
    by blast
  then have "\<exists>df. to_datetime_column to_datetime_ex raw_late = Some df
        \<and> (\<forall>r \<in> set (dense_ffill df). date r = grid_hi df \<longrightarrow> views r \<noteq> None)
        \<and> set (map fst (last_values (dense_ffill df))) = set (map article raw_late)
        \<and> (\<forall>p \<in> set (last_values (dense_ffill df)). snd p \<noteq> None)"
    by blast
  with e show ?thesis by (intro conjI)
qed

lemma insort_desc_then_key:
  assumes "sorted_wrt desc_then_key ys" "\<And>y. y \<in> set ys \<Longrightarrow> fst x < fst y"
  shows "sorted_wrt desc_then_key (insort_key (\<lambda>p. - snd p) x ys)"
  using assms
proof (induction ys)
  case Nil
  show ?case by simp
next
  case (Cons y ys)
  show ?case
  proof (cases "- snd x \<le> - snd y")
    case True
    have "desc_then_key x z" if "z \<in> set (y # ys)" for z
    proof -
      have "snd z \<le> snd y"
        using that Cons.prems(1) by (auto simp: desc_then_key_def)
      with True have "snd z \<le> snd x" by simp
      moreover have "fst x < fst z" using Cons.prems(2) that by simp
      ultimately show ?thesis by (auto simp: desc_then_key_def)
    qed
    with True Cons.prems(1) show ?thesis by simp
  next
    case False
    then have yx: "desc_then_key y x" by (simp add: desc_then_key_def)
    have "sorted_wrt desc_then_key (insort_key (\<lambda>p. - snd p) x ys)"
      using Cons by simp
    moreover have "\<And>z. z \<in> set (insort_key (\<lambda>p. - snd p) x ys) \<Longrightarrow> desc_then_key y z"
      using yx Cons.prems(1) by (auto simp: set_insort_key)
    ultimately show ?thesis using False by simp
  qed
qed

lemma sort_key_desc_then_key:
  "sorted_wrt (<) (map fst xs) \<Longrightarrow> sorted_wrt desc_then_key (sort_key (\<lambda>p. - snd p) xs)"
proof (induction xs)
  case Nil
  show ?case by simp
next
  case (Cons x xs)
  have a: "sorted_wrt desc_then_key (sort_key (\<lambda>p. - snd p) xs)"
    using Cons by simp
  have b: "\<And>y. y \<in> set (sort_key (\<lambda>p. - snd p) xs) \<Longrightarrow> fst x < fst y"
    using Cons.prems by auto
  have c: "sort_key (\<lambda>p. - snd p) (x # xs) = insort_key (\<lambda>p. - snd p) x (sort_key (\<lambda>p. - snd p) xs)"
    by simp
  show ?case
    unfolding c by (rule insort_desc_then_key) (fact a, erule b)
qed

lemma sorted_wrt_take_drop:
  assumes "sorted_wrt R xs" "p \<in> set (take n xs)" "q \<in> set (drop n xs)"
  shows "R p q"
proof -
  have "sorted_wrt R (take n xs @ drop n xs)" using assms(1) by simp
  then show ?thesis
    unfolding sorted_wrt_append using assms(2,3) by blast
qed

lemma map_filter_all_Some:
  "(\<And>x. x \<in> set xs \<Longrightarrow> f x = Some (g x)) \<Longrightarrow> List.map_filter f xs = map g xs"
  by (induction xs) (auto simp: List.map_filter_def)

section \<open>Normalization: the top articles\<close>

lemma strict_sorted_list_of_set_fst:
  "sorted_wrt (<) (map fst (map (\<lambda>a. (a, g a)) (sorted_list_of_set (A :: string set))))"
proof -
  have "map fst (map (\<lambda>a. (a, g a)) (sorted_list_of_set A)) = sorted_list_of_set A"
    by (simp add: comp_def)
  then show ?thesis
    using strict_sorted_list_of_set[of A] by (simp add: strict_sorted_iff sorted_wrt_map)
qed

text \<open>The entries \<open>nlargest\<close> sorts, when every last value is defined.\<close>

lemma nlargest_defined:
  assumes "\<And>a. a \<in> set as \<Longrightarrow> f a \<noteq> None"
  shows "nlargest n (map (\<lambda>a. (a, f a)) as) =
     take n (sort_key (\<lambda>p. - snd p) (map (\<lambda>a. (a, the (f a))) as))"
proof -
  have "List.map_filter (\<lambda>p. map_option (Pair (fst p)) (snd p)) (map (\<lambda>a. (a, f a)) as) =
      map (\<lambda>p. (fst p, the (snd p))) (map (\<lambda>a. (a, f a)) as)"
    by (rule map_filter_all_Some) (use assms in auto)
  then show ?thesis
    by (simp add: nlargest_def comp_def)
qed

lemma top_of_frame:
  assumes ne: "df \<noteq> []"
    and dist: "distinct (map (\<lambda>r. (article r, date r)) df)"
    and obs: "\<And>a. a \<in> set (map article df) \<Longrightarrow> \<exists>r \<in> set df. article r = a \<and> views r \<noteq> None"
  shows "nlargest n (last_values (dense_ffill df)) =
     take n (sort_key (\<lambda>p. - snd p)
       (map (\<lambda>a. (a, the (nearest_prior df a (grid_lo df) (grid_hi df))))
         (sorted_list_of_set (set (map article df)))))"
proof -
  have "nearest_prior df a (grid_lo df) (grid_hi df) \<noteq> None"
    if "a \<in> set (sorted_list_of_set (set (map article df)))" for a
  proof -
    from that have "a \<in> set (map article df)" by simp
    from obs[OF this] obtain r where "r \<in> set df" "article r = a" "views r \<noteq> None" by blast
    with nearest_prior_observed[OF dist] show ?thesis by blast
  qed
  then show ?thesis
    unfolding last_values_dense[OF ne] by (rule nlargest_defined)
qed

text \<open>
  C2. For a frame of the collector on which normalization returns and every \<open>n\<close>, the
  selection \<open>nlargest n\<close> of the last values has exactly \<open>min n d\<close> entries, where
  \<open>d\<close> is the number of distinct articles of the raw frame. It is in descending order
  of the value, equal values in the order of the series (the sorted article names of
  \<open>groupby\<close>); each entry's value is the article's forward-filled views at the last
  date; every article left out has a last value no larger than that of each selected one.
  The code selects with \<open>n = 20\<close>, and the articles of the returned frame are exactly
  the selected ones.
\<close>

theorem nlargest_last_values:
  assumes raw: "to_datetime_column to_datetime raw = Some df"
    and p: "process_cells df = Inr out"
  shows "length (nlargest n (last_values (dense_ffill df))) = min n (card (set (map article raw)))
    \<and> sorted_wrt desc_then_key (nlargest n (last_values (dense_ffill df)))
    \<and> (\<forall>p \<in> set (nlargest n (last_values (dense_ffill df))).
         \<lparr>article = fst p, views = Some (snd p), date = grid_hi df\<rparr> \<in> set (dense_ffill df))
    \<and> (\<forall>p \<in> set (nlargest n (last_values (dense_ffill df))).
        \<forall>q \<in> set (last_values (dense_ffill df)).
          fst q \<notin> set (map fst (nlargest n (last_values (dense_ffill df)))) \<longrightarrow>
            (\<exists>w. snd q = Some w \<and> w \<le> snd p))
    \<and> top_articles df = nlargest 20 (last_values (dense_ffill df))
    \<and> set (map article out) = set (map fst (top_articles df))"
proof -
  from p have ne: "df \<noteq> []" and dist: "distinct (map (\<lambda>r. (article r, date r)) df)"
    and out: "out = filter (\<lambda>r. article r \<in> set (map fst (top_articles df))) (dense_ffill df)"
    by (simp_all add: process_cells_Inr)
  from to_datetime_column_Some[OF raw]
  have arts: "map article df = map article raw" and allobs: "\<forall>r \<in> set df. views r \<noteq> None"
    by simp_all
  have obs: "\<And>a. a \<in> set (map article df) \<Longrightarrow> \<exists>r \<in> set df. article r = a \<and> views r \<noteq> None"
    using allobs by auto
  define S where "S = sorted_list_of_set (set (map article df))"
  define xs where "xs = map (\<lambda>a. (a, the (nearest_prior df a (grid_lo df) (grid_hi df)))) S"
  define srt where "srt = sort_key (\<lambda>p. - snd p) xs"
  have top: "nlargest m (last_values (dense_ffill df)) = take m srt" for m
    unfolding srt_def xs_def S_def by (rule top_of_frame[OF ne dist obs])
  have lv: "last_values (dense_ffill df) =
      map (\<lambda>a. (a, nearest_prior df a (grid_lo df) (grid_hi df))) S"
    unfolding S_def by (rule last_values_dense[OF ne])
  have defined: "nearest_prior df a (grid_lo df) (grid_hi df) \<noteq> None"
    if "a \<in> set (map article df)" for a
  proof -
    from obs[OF that] obtain r where "r \<in> set df" "article r = a" "views r \<noteq> None" by blast
    with nearest_prior_observed[OF dist] show ?thesis by blast
  qed
  have setS: "set S = set (map article df)"
    by (simp add: S_def)
  have lenS: "length S = card (set (map article raw))"
    by (simp add: S_def arts)
  have sorted: "sorted_wrt desc_then_key srt"
    unfolding srt_def xs_def S_def
    by (rule sort_key_desc_then_key) (rule strict_sorted_list_of_set_fst)
  have set_srt: "set srt = set xs"
    by (simp add: srt_def)
  have c1: "length (nlargest n (last_values (dense_ffill df))) = min n (card (set (map article raw)))"
    unfolding top by (simp add: srt_def xs_def lenS min.commute)
  have c2: "sorted_wrt desc_then_key (nlargest n (last_values (dense_ffill df)))"
    unfolding top using sorted by (rule sorted_wrt_take)
  have in_dense: "\<lparr>article = fst p, views = Some (snd p), date = grid_hi df\<rparr> \<in> set (dense_ffill df)"
    if "p \<in> set srt" for p
  proof -
    from that obtain a where a: "a \<in> set S" "p = (a, the (nearest_prior df a (grid_lo df) (grid_hi df)))"
      by (auto simp: set_srt xs_def)
    from a(1) have ain: "a \<in> set (map article df)" by (simp add: setS)
    from defined[OF ain] a(2) have v: "nearest_prior df a (grid_lo df) (grid_hi df) = Some (snd p)"
      by auto
    have "grid_hi df \<in> set [grid_lo df..grid_hi df]"
      using grid_lo_le_hi[OF ne] by simp
    then have "\<lparr>article = a, views = nearest_prior df a (grid_lo df) (grid_hi df), date = grid_hi df\<rparr>
        \<in> set (dense_ffill df)"
      unfolding dense_ffill_nearest_prior using ain by (auto simp: image_iff)
    with v a(2) show ?thesis by simp
  qed
  have c3: "\<forall>p \<in> set (nlargest n (last_values (dense_ffill df))).
         \<lparr>article = fst p, views = Some (snd p), date = grid_hi df\<rparr> \<in> set (dense_ffill df)"
    unfolding top using in_dense by (meson in_set_takeD)
  have c4: "\<forall>p \<in> set (nlargest n (last_values (dense_ffill df))).
        \<forall>q \<in> set (last_values (dense_ffill df)).
          fst q \<notin> set (map fst (nlargest n (last_values (dense_ffill df)))) \<longrightarrow>
            (\<exists>w. snd q = Some w \<and> w \<le> snd p)"
  proof (intro ballI impI)
    fix p q
    assume pin: "p \<in> set (nlargest n (last_values (dense_ffill df)))"
      and qin: "q \<in> set (last_values (dense_ffill df))"
      and notin: "fst q \<notin> set (map fst (nlargest n (last_values (dense_ffill df))))"
    from qin obtain a where a: "a \<in> set S" "q = (a, nearest_prior df a (grid_lo df) (grid_hi df))"
      by (auto simp: lv)
    from a(1) have "a \<in> set (map article df)" by (simp add: setS)
    from defined[OF this] obtain w where w: "nearest_prior df a (grid_lo df) (grid_hi df) = Some w"
      by auto
    have "(a, w) \<in> set srt"
      using a(1) w by (auto simp: set_srt xs_def image_iff intro!: bexI[of _ a])
    moreover have "(a, w) \<notin> set (take n srt)"
      using notin a(2) unfolding top by force
    ultimately have "(a, w) \<in> set (drop n srt)"
      by (metis Un_iff append_take_drop_id set_append)
    from sorted_wrt_take_drop[OF sorted _ this, of p] pin
    have "desc_then_key p (a, w)" by (simp add: top)
    then have "w \<le> snd p" by (auto simp: desc_then_key_def)
    with w a(2) show "\<exists>w. snd q = Some w \<and> w \<le> snd p" by simp
  qed
  have c5: "top_articles df = nlargest 20 (last_values (dense_ffill df))"
    by (simp add: top_articles_def TOP_ARTICLES_def)
  have c6: "set (map article out) = set (map fst (top_articles df))"
  proof -
    have sub: "set (map fst (top_articles df)) \<subseteq> set (map article (dense_ffill df))"
    proof
      fix a assume "a \<in> set (map fst (top_articles df))"
      then obtain p where "p \<in> set (take 20 srt)" "fst p = a"
        unfolding c5 top by auto
      then have "p \<in> set srt" by (meson in_set_takeD)
      from in_dense[OF this] \<open>fst p = a\<close> show "a \<in> set (map article (dense_ffill df))"
        by force
    qed
    have "set (map article (filter (\<lambda>r. article r \<in> T) rows)) = T"
      if "T \<subseteq> set (map article rows)" for T :: "string set" and rows :: "cell list"
      using that by force
    from this[OF sub] show ?thesis
      unfolding out .
  qed
  from c1 c2 c3 c4 c5 c6 show ?thesis by (intro conjI)
qed

theorem nlargest_last_values_witness:
  "to_datetime_column to_datetime_ex raw_ties = Some frame_ties
   \<and> process_cells frame_ties =
       Inr [\<lparr>article = ''B'', views = Some 100, date = 19645\<rparr>,
            \<lparr>article = ''B'', views = Some 100, date = 19646\<rparr>,
            \<lparr>article = ''A'', views = Some 100, date = 19645\<rparr>,
            \<lparr>article = ''A'', views = Some 100, date = 19646\<rparr>,
            \<lparr>article = ''C'', views = None, date = 19645\<rparr>,
            \<lparr>article = ''C'', views = Some 120, date = 19646\<rparr>]
   \<and> nlargest 2 (last_values (dense_ffill frame_ties)) = [(''C'', 120), (''A'', 100)]
   \<and> length (nlargest 2 (last_values (dense_ffill frame_ties))) = min 2 (card (set (map article raw_ties)))
   \<and> sorted_wrt desc_then_key (nlargest 2 (last_values (dense_ffill frame_ties)))"
proof -
  have t: "to_datetime_column to_datetime_ex raw_ties = Some frame_ties"
    by code_simp
  have p: "process_cells frame_ties =
       Inr [\<lparr>article = ''B'', views = Some 100, date = 19645\<rparr>,
            \<lparr>article = ''B'', views = Some 100, date = 19646\<rparr>,
            \<lparr>article = ''A'', views = Some 100, date = 19645\<rparr>,
            \<lparr>article = ''A'', views = Some 100, date = 19646\<rparr>,
            \<lparr>article = ''C'', views = None, date = 19645\<rparr>,
            \<lparr>article = ''C'', views = Some 120, date = 19646\<rparr>]"
    by code_simp
  have top: "nlargest 2 (last_values (dense_ffill frame_ties)) = [(''C'', 120), (''A'', 100)]"
    by code_simp
  note T = nlargest_last_values[OF t p, of 2]
  from T have l: "length (nlargest 2 (last_values (dense_ffill frame_ties))) =
      min 2 (card (set (map article raw_ties)))"
    by (rule conjunct1)
  from T have s: "sorted_wrt desc_then_key (nlargest 2 (last_values (dense_ffill frame_ties)))"
    by (rule conjunct2[THEN conjunct1])
  from t p top l s show ?thesis by (intro conjI)
qed

section \<open>Normalization of a dense frame\<close>













section \<open>Statistics\<close>










section \<open>The statistics of a run\<close>

lemma series_max_Max: "xs \<noteq> [] \<Longrightarrow> series_max xs = Some (Max (set xs))"
proof (cases xs)
  case Nil
  assume "xs \<noteq> []"
  with Nil show ?thesis by simp
next
  case (Cons a list)
  have "series_max (a # list) = Some (fold max list a)" by simp
  also have "fold max list a = Max (set (a # list))"
    by (rule Max.set_eq_fold[symmetric])
  finally show ?thesis using Cons by simp
qed

lemma main_Inr:
  assumes "fst (main http to_datetime now start_date end_date) = Inr res"
  shows "\<exists>df out. validate_dates start_date end_date now = Inr ()
     \<and> fst (collect_wiki_data http start_date end_date) = Inr df
     \<and> process_wiki_data to_datetime df = Inr out
     \<and> calculate_statistics df out = Inr res"
  using assms
  by (auto simp: main_def Let_def split: sum.splits)

lemma calculate_statistics_Inr:
  "calculate_statistics df out = Inr (m, mx, k) \<Longrightarrow>
     mx = series_max (map views df) \<and> k = length (unique (map article df))"
  by (auto simp: calculate_statistics_def Let_def split: option.splits)

text \<open>
  C4. When the run reaches the statistics, the reported maximum is the largest view count
  of the whole frame that the collector returned for the date range: it is the views of
  one of its rows and no row has more. \<open>main\<close> passes the copy taken before
  normalization, so this holds also when the article with the maximum is not among the
  selected top articles, as in the example of 21 articles where X has 1000 views on the
  first day and the smallest last value.
\<close>

theorem main_max_views:
  assumes "fst (main http to_datetime now start_date end_date) =
     Inr (mean_views, max_views, unique_articles)"
  shows "\<exists>df. fst (collect_wiki_data http start_date end_date) = Inr df \<and> df \<noteq> []
     \<and> max_views = Some (Max (set (map views df)))
     \<and> (\<exists>r \<in> set df. max_views = Some (views r))
     \<and> (\<forall>r \<in> set df. \<exists>v. max_views = Some v \<and> views r \<le> v)"
proof -
  from main_Inr[OF assms] obtain df out where
    c: "fst (collect_wiki_data http start_date end_date) = Inr df"
    and s: "calculate_statistics df out = Inr (mean_views, max_views, unique_articles)"
    by blast
  from c have ne: "df \<noteq> []"
    by (auto simp: collect_wiki_data_def Let_def split: if_splits)
  from calculate_statistics_Inr[OF s] ne
  have mx: "max_views = Some (Max (set (map views df)))"
    by (simp add: series_max_Max)
  have fin: "finite (set (map views df))" "set (map views df) \<noteq> {}"
    using ne by simp_all
  from Max_in[OF fin] have "\<exists>r \<in> set df. Max (set (map views df)) = views r"
    by auto
  moreover have "\<forall>r \<in> set df. views r \<le> Max (set (map views df))"
    using fin(1) by (auto intro: Max_ge)
  ultimately show ?thesis
    using c ne mx by auto
qed

theorem main_max_views_witness:
  "fst (main http_21 to_datetime_ex (datetime_of 2023 10 20) (datetime_of 2023 10 15)
         (datetime_of 2023 10 16)) = Inr (19, Some 1000, 21)
   \<and> fst (collect_wiki_data http_21 (datetime_of 2023 10 15) (datetime_of 2023 10 16)) = Inr raw_21
   \<and> Some 1000 = Some (Max (set (map views raw_21)))
   \<and> \<lparr>article = ''X'', views = 1000, date = ''20231015''\<rparr> \<in> set raw_21
   \<and> process_wiki_data to_datetime_ex raw_21 = Inr frame_21_top
   \<and> ''X'' \<notin> set (map article frame_21_top)"
proof -
  define s where "s = datetime_of 2023 10 15"
  define e where "e = datetime_of 2023 10 16"
  have m: "fst (main http_21 to_datetime_ex (datetime_of 2023 10 20) s e) = Inr (19, Some 1000, 21)"
    unfolding s_def e_def by code_simp
  have c: "fst (collect_wiki_data http_21 s e) = Inr raw_21"
    unfolding s_def e_def by code_simp
  have p: "process_wiki_data to_datetime_ex raw_21 = Inr frame_21_top"
    by code_simp
  have x: "\<lparr>article = ''X'', views = 1000, date = ''20231015''\<rparr> \<in> set raw_21"
    by (simp add: raw_21_def articles_21_def)
  have nx: "''X'' \<notin> set (map article frame_21_top)"
    by code_simp
  from main_max_views[OF m] c have mx: "Some 1000 = Some (Max (set (map views raw_21)))"
    by auto
  from m c mx x p nx show ?thesis unfolding s_def e_def by (intro conjI)
qed


end
